theory Spec2Isabelle
  imports Main "HOL-Library.Word"
begin

section \<open>Block assembly and mining of the veil node (miner.cpp)\<close>

subsection \<open>Data model\<close>

text \<open>
  Hashes (\<open>uint256\<close>) are natural numbers, with the order of \<open>uint256\<close>. Amounts
  (\<open>CAmount\<close>) are integers. The counters the assembler does unsigned arithmetic on are
  64-bit words, so \<open>+\<close> and \<open>*\<close> wrap as \<open>uint64_t\<close> does; an \<open>int64_t\<close> signature-operation
  cost is a 64-bit word too, read as two's complement by \<open>sint\<close>.
\<close>

type_synonym uint256 = nat
type_synonym CAmount = int
type_synonym CScript = "nat list"
type_synonym uint64_t = "64 word"
type_synonym int64_t = "64 word"

text \<open>
  The constants of consensus/consensus.h. The header is not among the sources, so the
  constants the assembler reads are parameters of the model.
\<close>

record Consensus =
  WITNESS_SCALE_FACTOR :: uint64_t
  MAX_BLOCK_SIGOPS_COST :: int64_t
  MAX_BLOCK_WEIGHT :: uint64_t

text \<open>
  The resource counters of \<open>BlockAssembler\<close> that \<open>resetBlock\<close> initialises, and the two
  configuration members. They are declared in miner.h, which is not among the sources; the
  counters have the width of the \<open>uint64_t\<close> operand they are added to.
\<close>

record Accounting =
  nBlockMaxWeight :: uint64_t
  blockMinFeeRate :: CAmount
  nBlockWeight :: uint64_t
  nBlockTx :: uint64_t
  nBlockSigOpsCost :: uint64_t
  nFees :: CAmount

text \<open>
  A transaction output and a transaction, by what the assembler reads of them. The serial
  and pubcoin hashes are those of the zerocoin inputs and outputs, in their order in the
  transaction; a \<open>CTransactionRef\<close> may be null, which is \<open>None\<close>.
\<close>

record CTxOut =
  IsStandardOutput :: bool
  scriptPubKey :: CScript
  nValue :: CAmount

record CTransaction =
  GetHash :: uint256
  IsZerocoinSpend :: bool
  IsZerocoinMint :: bool
  vSerialHashes :: "uint256 list"
  vPubcoinHashes :: "uint256 list"
  vin0_IsAnonInput :: bool
  HasWitness :: bool
  scriptSig0 :: "int list"
  vpout :: "CTxOut list"

type_synonym CTransactionRef = "CTransaction option"

text \<open>
  The mempool is a collaborator. A handle (\<open>txiter\<close>) is a number; a \<open>setEntries\<close> is a
  duplicate-free list in the order of the handles, which stands for the order
  \<open>CompareIteratorByHash\<close> iterates in.
\<close>

type_synonym txiter = nat
type_synonym setEntries = "txiter list"

record CTxMemPoolEntry =
  GetSharedTx :: CTransaction
  GetTxSize :: uint64_t
  GetTxWeight :: uint64_t
  GetFee :: CAmount
  GetModifiedFee :: CAmount
  GetSigOpCost :: int64_t
  GetCountWithAncestors :: uint64_t
  GetSizeWithAncestors :: uint64_t
  GetModFeesWithAncestors :: CAmount
  GetSigOpCostWithAncestors :: int64_t

record CTxMemPoolModifiedEntry =
  iter :: txiter
  nSizeWithAncestors :: uint64_t
  nModFeesWithAncestors :: CAmount
  nSigOpCostWithAncestors :: int64_t

text \<open>
  What the assembler asks of the mempool: the entry behind a handle, the handles in the
  order of the \<open>ancestor_score\<close> index, the descendants of an entry (the entry itself among
  them), its in-pool ancestors (computed without limits), and the comparator of the
  \<open>ancestor_score\<close> index, which works on floating point and is left to the pool.
\<close>

record CTxMemPool =
  mapTx :: "txiter \<Rightarrow> CTxMemPoolEntry"
  ancestor_score :: "txiter list"
  CalculateDescendants :: "txiter \<Rightarrow> txiter list"
  CalculateMemPoolAncestors :: "txiter \<Rightarrow> txiter list"
  CompareTxMemPoolEntryByAncestorFee ::
    "CTxMemPoolModifiedEntry \<Rightarrow> CTxMemPoolModifiedEntry \<Rightarrow> bool"

text \<open>
  The chain state, the consensus rules and the budget schedule, as far as the assembler
  consults them; their code is not among the sources, so they are parameters.
  \<open>HaveInputs\<close> is the view on the confirmed coins; the scripts are those of the configured
  addresses; \<open>lockTimeCutoff\<close> is the cutoff the locktime flags select; \<open>ComputeHash\<close> is the
  hash of a coinbase with the given script and outputs; \<open>TestBlockValidity\<close> is the validity
  test on the transactions of the block.

  Modelled from the spec: \<open>IsSerialInBlockchain\<close> and \<open>IsPubcoinInBlockchain\<close> of
  veil/zerocoin/zchain.h. By the spec they tell whether a serial hash is recorded on-chain
  below the height of the block under construction, the second argument, and whether a
  pubcoin hash is recorded on-chain.
\<close>

record Chain =
  consensus :: Consensus
  tipHeight :: int
  HeightPoSStart :: int
  lockTimeCutoff :: int
  IsFinalTx :: "CTransaction \<Rightarrow> int \<Rightarrow> int \<Rightarrow> bool"
  IsSerialInBlockchain :: "uint256 \<Rightarrow> int \<Rightarrow> bool"
  IsPubcoinInBlockchain :: "uint256 \<Rightarrow> bool"
  HaveInputs :: "CTransaction \<Rightarrow> bool"
  prevNetworkRewardReserve :: CAmount
  rewardScript :: CScript
  MaxNetworkReward :: CAmount
  GetBlockRewards :: "int \<Rightarrow> CAmount \<times> CAmount \<times> CAmount \<times> CAmount"
  budgetScript :: CScript
  labScript :: CScript
  founderScript :: CScript
  ComputeHash :: "int list \<Rightarrow> CTxOut list \<Rightarrow> uint256"
  TxInToZerocoinSpend :: "CTransaction \<Rightarrow> bool"
  TestBlockValidity :: "CTransactionRef list \<Rightarrow> bool"

text \<open>
  The wallet: the coinstake \<open>CreateCoinStake\<close> produces, if any, whether the key of the
  stake's serial is found, and whether signing succeeds.
\<close>

record CWallet =
  CreateCoinStake :: "CTransaction option"
  GetZerocoinKey :: bool
  Sign :: bool

record CBlockTemplate =
  block_vtx :: "CTransactionRef list"
  block_fProofOfStake :: bool
  template_vTxFees :: "CAmount list"

text \<open>The members of \<open>BlockAssembler\<close> and of the template under construction.\<close>

record BlockAssembler = Accounting +
  fIncludeWitness :: bool
  nHeight :: int
  nLockTimeCutoff :: int
  inBlock :: setEntries
  vtx :: "CTransactionRef list"
  vTxFees :: "CAmount list"
  vTxSigOpsCost :: "int64_t list"

text \<open>The locals of \<open>addPackageTxs\<close>; \<open>mi\<close> is what is left of the \<open>ancestor_score\<close> index.\<close>

record PackageLoop =
  asm :: BlockAssembler
  mi :: "txiter list"
  mapModifiedTx :: "CTxMemPoolModifiedEntry list"
  failedTx :: setEntries
  nConsecutiveFailed :: int
  nPackagesSelected :: int
  nDescendantsUpdated :: int

subsection \<open>Sets of handles and the modified index\<close>

definition mkSetEntries :: "txiter list \<Rightarrow> setEntries" where
  "mkSetEntries hs = sort (remdups hs)"

definition insertEntry :: "txiter \<Rightarrow> setEntries \<Rightarrow> setEntries" where
  "insertEntry h hs = (if h \<in> set hs then hs else insort h hs)"

text \<open>
  \<open>mapModifiedTx\<close> is the list of its entries in the order of its \<open>ancestor_score\<close> index,
  so \<open>begin()\<close> is the head. An insertion goes before the first entry the new one strictly
  precedes; \<open>modify\<close> re-keys, which is an erasure and an insertion.
\<close>

fun insertModified :: "(CTxMemPoolModifiedEntry \<Rightarrow> CTxMemPoolModifiedEntry \<Rightarrow> bool)
    \<Rightarrow> CTxMemPoolModifiedEntry \<Rightarrow> CTxMemPoolModifiedEntry list \<Rightarrow> CTxMemPoolModifiedEntry list" where
  "insertModified cmp e [] = [e]"
| "insertModified cmp e (x # xs) = (if cmp e x then e # x # xs else x # insertModified cmp e xs)"

definition eraseModified :: "txiter \<Rightarrow> CTxMemPoolModifiedEntry list \<Rightarrow> CTxMemPoolModifiedEntry list" where
  "eraseModified h ms = filter (\<lambda>e. iter e \<noteq> h) ms"

definition CTxMemPoolModifiedEntry_of :: "CTxMemPool \<Rightarrow> txiter \<Rightarrow> CTxMemPoolModifiedEntry" where
  "CTxMemPoolModifiedEntry_of pool h =
     \<lparr>iter = h,
      nSizeWithAncestors = GetSizeWithAncestors (mapTx pool h),
      nModFeesWithAncestors = GetModFeesWithAncestors (mapTx pool h),
      nSigOpCostWithAncestors = GetSigOpCostWithAncestors (mapTx pool h)\<rparr>"

text \<open>
  Modelled from the spec: \<open>update_for_parent_inclusion\<close>, declared in miner.h, which is not
  among the sources. The spec has it subtract the parent's size, modified fee and
  signature-operation cost from the entry, as the insertion branch of
  \<open>UpdatePackagesForAdded\<close> does.
\<close>

definition update_for_parent_inclusion ::
    "CTxMemPoolEntry \<Rightarrow> CTxMemPoolModifiedEntry \<Rightarrow> CTxMemPoolModifiedEntry" where
  "update_for_parent_inclusion parent e =
     e\<lparr>nSizeWithAncestors := nSizeWithAncestors e - GetTxSize parent,
       nModFeesWithAncestors := nModFeesWithAncestors e - GetModifiedFee parent,
       nSigOpCostWithAncestors := nSigOpCostWithAncestors e - GetSigOpCost parent\<rparr>"

subsection \<open>The helpers of the package selection\<close>

definition onlyUnconfirmed :: "BlockAssembler \<Rightarrow> setEntries \<Rightarrow> setEntries" where
  "onlyUnconfirmed a testSet = filter (\<lambda>h. h \<notin> set (inBlock a)) testSet"

fun TestPackageTransactions :: "Chain \<Rightarrow> CTxMemPool \<Rightarrow> BlockAssembler \<Rightarrow> setEntries \<Rightarrow> bool" where
  "TestPackageTransactions ch pool a [] = True"
| "TestPackageTransactions ch pool a (h # package) =
     (if \<not> IsFinalTx ch (GetSharedTx (mapTx pool h)) (nHeight a) (nLockTimeCutoff a) then False
      else if \<not> fIncludeWitness a \<and> HasWitness (GetSharedTx (mapTx pool h)) then False
      else TestPackageTransactions ch pool a package)"

definition AddToBlock :: "CTxMemPool \<Rightarrow> txiter \<Rightarrow> BlockAssembler \<Rightarrow> BlockAssembler" where
  "AddToBlock pool h a =
     a\<lparr>vtx := vtx a @ [Some (GetSharedTx (mapTx pool h))],
       vTxFees := vTxFees a @ [GetFee (mapTx pool h)],
       vTxSigOpsCost := vTxSigOpsCost a @ [GetSigOpCost (mapTx pool h)],
       nBlockWeight := nBlockWeight a + GetTxWeight (mapTx pool h),
       nBlockTx := nBlockTx a + 1,
       nBlockSigOpsCost := nBlockSigOpsCost a + GetSigOpCost (mapTx pool h),
       nFees := nFees a + GetFee (mapTx pool h),
       inBlock := insertEntry h (inBlock a)\<rparr>"

text \<open>
  The inner loop of \<open>UpdatePackagesForAdded\<close>, over the descendants of one added entry
  \<open>it\<close>, and the outer loop over the added entries. The state is the count of updates
  and the modified index.
\<close>

fun updateDescendants :: "CTxMemPool \<Rightarrow> setEntries \<Rightarrow> txiter \<Rightarrow> txiter list
    \<Rightarrow> int \<times> CTxMemPoolModifiedEntry list \<Rightarrow> int \<times> CTxMemPoolModifiedEntry list" where
  "updateDescendants pool alreadyAdded it [] acc = acc"
| "updateDescendants pool alreadyAdded it (desc # descendants) (n, ms) =
     (if desc \<in> set alreadyAdded then updateDescendants pool alreadyAdded it descendants (n, ms)
      else case find (\<lambda>e. iter e = desc) ms of
        None \<Rightarrow>
          updateDescendants pool alreadyAdded it descendants
            (n + 1,
             insertModified (CompareTxMemPoolEntryByAncestorFee pool)
               ((CTxMemPoolModifiedEntry_of pool desc)
                  \<lparr>nSizeWithAncestors :=
                     GetSizeWithAncestors (mapTx pool desc) - GetTxSize (mapTx pool it),
                   nModFeesWithAncestors :=
                     GetModFeesWithAncestors (mapTx pool desc) - GetModifiedFee (mapTx pool it),
                   nSigOpCostWithAncestors :=
                     GetSigOpCostWithAncestors (mapTx pool desc) - GetSigOpCost (mapTx pool it)\<rparr>)
               ms)
      | Some e \<Rightarrow>
          updateDescendants pool alreadyAdded it descendants
            (n + 1,
             insertModified (CompareTxMemPoolEntryByAncestorFee pool)
               (update_for_parent_inclusion (mapTx pool it) e) (eraseModified desc ms)))"

fun updateAdded :: "CTxMemPool \<Rightarrow> setEntries \<Rightarrow> txiter list
    \<Rightarrow> int \<times> CTxMemPoolModifiedEntry list \<Rightarrow> int \<times> CTxMemPoolModifiedEntry list" where
  "updateAdded pool alreadyAdded [] acc = acc"
| "updateAdded pool alreadyAdded (it # its) acc =
     updateAdded pool alreadyAdded its
       (updateDescendants pool alreadyAdded it
          (mkSetEntries (CalculateDescendants pool it)) acc)"

definition UpdatePackagesForAdded :: "CTxMemPool \<Rightarrow> setEntries \<Rightarrow> CTxMemPoolModifiedEntry list
    \<Rightarrow> int \<times> CTxMemPoolModifiedEntry list" where
  "UpdatePackagesForAdded pool alreadyAdded ms = updateAdded pool alreadyAdded alreadyAdded (0, ms)"

definition SkipMapTxEntry :: "BlockAssembler \<Rightarrow> txiter \<Rightarrow> CTxMemPoolModifiedEntry list
    \<Rightarrow> setEntries \<Rightarrow> bool" where
  "SkipMapTxEntry a it ms failed \<longleftrightarrow>
     it \<in> iter ` set ms \<or> it \<in> set (inBlock a) \<or> it \<in> set failed"

text \<open>
  Modelled from the spec: the comparator \<open>CompareTxIterByAncestorCount\<close> of miner.h, which
  is not among the sources. The spec sorts the package by ancestor count ascending; entries
  of equal count keep the order of their handles, which makes the comparator a strict
  total order, so that \<open>std::sort\<close> has one result.
\<close>

definition SortForBlock :: "CTxMemPool \<Rightarrow> setEntries \<Rightarrow> txiter list" where
  "SortForBlock pool package = sort_key (\<lambda>h. GetCountWithAncestors (mapTx pool h)) package"

subsection \<open>TestPackage\<close>

text \<open>
  \<open>nBlockSigOpsCost + packageSigOpsCost\<close> adds an \<open>int64_t\<close> to a \<open>uint64_t\<close>: the signed
  operand is converted to unsigned, which keeps its 64 bits, as is the constant the sum is
  compared with. On words \<open>\<le>\<close> is the unsigned order.
\<close>

definition TestPackage :: "Consensus \<Rightarrow> 'a Accounting_scheme \<Rightarrow> uint64_t \<Rightarrow> int64_t \<Rightarrow> bool" where
  "TestPackage cp a packageSize packageSigOpsCost =
     (if nBlockWeight a + WITNESS_SCALE_FACTOR cp * packageSize \<ge> nBlockMaxWeight a then False
      else if nBlockSigOpsCost a + packageSigOpsCost \<ge> MAX_BLOCK_SIGOPS_COST cp then False
      else True)"

subsection \<open>addPackageTxs\<close>

text \<open>
  The ways a run ends without a template, and the assertion and the fuel of the loops.
\<close>

datatype error =
  AssertionFailed | OutOfFuel | OutOfRange | NullOutput | NullDereference
  | WalletUnavailable | CoinstakeFailed | MempoolBusy
  | StakeNotZerocoinSpend | SpendUnreadable | KeyMissing | SignFailed | TemplateInvalid

datatype step_result = Continue PackageLoop | Exit PackageLoop | Assert

text \<open>
  Which package to work on next: the next entry of \<open>mapTx\<close> or the best of
  \<open>mapModifiedTx\<close>. The result is \<open>iter\<close>, \<open>fUsingModified\<close> and the cursor \<open>mi\<close>, which
  moves on when the entry of \<open>mapTx\<close> is taken.
\<close>

fun selectCandidate :: "CTxMemPool \<Rightarrow> txiter list \<Rightarrow> CTxMemPoolModifiedEntry list
    \<Rightarrow> (txiter \<times> bool \<times> txiter list) option" where
  "selectCandidate pool [] [] = None"
| "selectCandidate pool [] (modit # ms) = Some (iter modit, True, [])"
| "selectCandidate pool (h # rest) [] = Some (h, False, rest)"
| "selectCandidate pool (h # rest) (modit # ms) =
     (if CompareTxMemPoolEntryByAncestorFee pool modit (CTxMemPoolModifiedEntry_of pool h)
      then Some (iter modit, True, h # rest)
      else Some (h, False, rest))"

text \<open>
  What both failure branches do to a candidate of the modified index: erase \<open>modit\<close>, the
  head of the index, and record the handle in \<open>failedTx\<close>.
\<close>

definition failCandidate :: "bool \<Rightarrow> txiter \<Rightarrow> PackageLoop \<Rightarrow> PackageLoop" where
  "failCandidate fUsingModified it s =
     (if fUsingModified
      then s\<lparr>mapModifiedTx := tl (mapModifiedTx s), failedTx := insertEntry it (failedTx s)\<rparr>
      else s)"

definition commitPackage :: "CTxMemPool \<Rightarrow> setEntries \<Rightarrow> PackageLoop \<Rightarrow> PackageLoop" where
  "commitPackage pool ancestors s =
     (let s2 = s\<lparr>nConsecutiveFailed := 0\<rparr>;
          sortedEntries = SortForBlock pool ancestors;
          s3 = fold (\<lambda>h t. t\<lparr>asm := AddToBlock pool h (asm t),
                               mapModifiedTx := eraseModified h (mapModifiedTx t)\<rparr>)
                 sortedEntries s2;
          s4 = s3\<lparr>nPackagesSelected := nPackagesSelected s3 + 1\<rparr>;
          (n, ms) = UpdatePackagesForAdded pool ancestors (mapModifiedTx s4)
      in s4\<lparr>nDescendantsUpdated := nDescendantsUpdated s4 + n, mapModifiedTx := ms\<rparr>)"

text \<open>
  The body of the loop from the package sizes on (the minimum-feerate test before it is
  commented out in the source, and \<open>packageFees\<close> is read nowhere else).
\<close>

definition evaluatePackage :: "Chain \<Rightarrow> CTxMemPool \<Rightarrow> txiter \<Rightarrow> bool \<Rightarrow> PackageLoop \<Rightarrow> step_result" where
  "evaluatePackage ch pool it fUsingModified s =
     (let packageSize = (if fUsingModified then nSizeWithAncestors (hd (mapModifiedTx s))
                         else GetSizeWithAncestors (mapTx pool it));
          packageSigOpsCost = (if fUsingModified then nSigOpCostWithAncestors (hd (mapModifiedTx s))
                               else GetSigOpCostWithAncestors (mapTx pool it))
      in if \<not> TestPackage (consensus ch) (asm s) packageSize packageSigOpsCost then
           (let s2 = (failCandidate fUsingModified it s)\<lparr>nConsecutiveFailed := nConsecutiveFailed s + 1\<rparr>
            in if nConsecutiveFailed s2 > 1000
                  \<and> nBlockWeight (asm s2) > nBlockMaxWeight (asm s2) - 4000
               then Exit s2 else Continue s2)
         else
           (let ancestors = insertEntry it
                  (onlyUnconfirmed (asm s) (mkSetEntries (CalculateMemPoolAncestors pool it)))
            in if \<not> TestPackageTransactions ch pool (asm s) ancestors
               then Continue (failCandidate fUsingModified it s)
               else Continue (commitPackage pool ancestors s)))"

definition step :: "Chain \<Rightarrow> CTxMemPool \<Rightarrow> PackageLoop \<Rightarrow> step_result" where
  "step ch pool s =
     (if mi s = [] \<and> mapModifiedTx s = [] then Exit s
      else if mi s \<noteq> [] \<and> SkipMapTxEntry (asm s) (hd (mi s)) (mapModifiedTx s) (failedTx s)
      then Continue (s\<lparr>mi := tl (mi s)\<rparr>)
      else case selectCandidate pool (mi s) (mapModifiedTx s) of
        None \<Rightarrow> Exit s
      | Some (it, fUsingModified, mi') \<Rightarrow>
          if it \<in> set (inBlock (asm s)) then Assert
          else evaluatePackage ch pool it fUsingModified (s\<lparr>mi := mi'\<rparr>))"

fun addPackageTxs_loop :: "nat \<Rightarrow> Chain \<Rightarrow> CTxMemPool \<Rightarrow> PackageLoop \<Rightarrow> error + PackageLoop" where
  "addPackageTxs_loop 0 ch pool s = Inl OutOfFuel"
| "addPackageTxs_loop (Suc fuel) ch pool s =
     (case step ch pool s of
        Exit s' \<Rightarrow> Inr s'
      | Continue s' \<Rightarrow> addPackageTxs_loop fuel ch pool s'
      | Assert \<Rightarrow> Inl AssertionFailed)"

definition addPackageTxs :: "nat \<Rightarrow> Chain \<Rightarrow> CTxMemPool \<Rightarrow> BlockAssembler \<Rightarrow> error + PackageLoop" where
  "addPackageTxs fuel ch pool a =
     addPackageTxs_loop fuel ch pool
       \<lparr>asm = a, mi = ancestor_score pool,
        mapModifiedTx = snd (UpdatePackagesForAdded pool (inBlock a) []),
        failedTx = [], nConsecutiveFailed = 0, nPackagesSelected = 0, nDescendantsUpdated = 0\<rparr>"

subsection \<open>The screening of CreateNewBlock\<close>

text \<open>
  Modelled from the spec: \<open>TxToSerialHashSet\<close> and \<open>TxToPubcoinHashSet\<close> of
  veil/zerocoin/zchain.h, which is not among the sources. They extract the hashes into a
  \<open>std::set\<close>, which the screening then iterates in the order of the hashes.
\<close>

definition TxToSerialHashSet :: "CTransaction \<Rightarrow> uint256 list" where
  "TxToSerialHashSet ptx = sort (remdups (vSerialHashes ptx))"

definition TxToPubcoinHashSet :: "CTransaction \<Rightarrow> uint256 list" where
  "TxToPubcoinHashSet ptx = sort (remdups (vPubcoinHashes ptx))"

record Screening =
  setSerials :: "uint256 set"
  setPubcoins :: "uint256 set"
  setDuplicate :: "uint256 set"
  nNetworkRewardReserve :: CAmount

text \<open>
  The two loops over the hashes of one transaction. The result is \<open>fRemove\<close> and the set
  as it is when the loop is left: a \<open>break\<close> leaves the hashes recorded so far in it.
\<close>

fun scanSerials :: "Chain \<Rightarrow> int \<Rightarrow> uint256 list \<Rightarrow> uint256 set \<Rightarrow> bool \<times> uint256 set" where
  "scanSerials ch h [] S = (False, S)"
| "scanSerials ch h (hashSerial # rest) S =
     (if hashSerial \<in> S then (True, S)
      else if IsSerialInBlockchain ch hashSerial h then (True, S)
      else scanSerials ch h rest (insert hashSerial S))"

fun scanPubcoins :: "Chain \<Rightarrow> uint256 list \<Rightarrow> uint256 set \<Rightarrow> bool \<times> uint256 set" where
  "scanPubcoins ch [] P = (False, P)"
| "scanPubcoins ch (hashPubcoin # rest) P =
     (if hashPubcoin \<in> P then (True, P)
      else if IsPubcoinInBlockchain ch hashPubcoin then (True, P)
      else scanPubcoins ch rest (insert hashPubcoin P))"

text \<open>
  The sum of two \<open>CAmount\<close>, which is an \<open>int64_t\<close>, as \<open>+=\<close> computes it: the sum of the
  numbers, wrapped around into the range from \<open>- 2 ^ 63\<close> to \<open>2 ^ 63 - 1\<close>.
\<close>

definition add_int64 :: "CAmount \<Rightarrow> CAmount \<Rightarrow> CAmount" where
  "add_int64 a b = signed_take_bit 63 (a + b)"

text \<open>
  The loop over the outputs of one transaction, lines 268 to 274: the reserve \<open>r\<close> with the
  value of every standard output to \<open>script\<close> added to it in turn.
\<close>

fun scanOutputs :: "CScript \<Rightarrow> CTxOut list \<Rightarrow> CAmount \<Rightarrow> CAmount" where
  "scanOutputs script [] r = r"
| "scanOutputs script (pout # rest) r =
     (if \<not> IsStandardOutput pout then scanOutputs script rest r
      else if scriptPubKey pout = script then scanOutputs script rest (add_int64 r (nValue pout))
      else scanOutputs script rest r)"

definition screenTx :: "Chain \<Rightarrow> int \<Rightarrow> CTransaction \<Rightarrow> Screening \<Rightarrow> Screening" where
  "screenTx ch h ptx sc =
     (let setTxSerialHashes = (if IsZerocoinSpend ptx then TxToSerialHashSet ptx else []);
          setTxPubcoinHashes = (if IsZerocoinMint ptx then TxToPubcoinHashSet ptx else []);
          (fRemove, S) = scanSerials ch h setTxSerialHashes (setSerials sc)
      in if fRemove
         then sc\<lparr>setSerials := S, setDuplicate := insert (GetHash ptx) (setDuplicate sc)\<rparr>
         else
           (let (fRemove', P) = scanPubcoins ch setTxPubcoinHashes (setPubcoins sc)
            in if fRemove'
               then sc\<lparr>setSerials := S, setPubcoins := P,
                       setDuplicate := insert (GetHash ptx) (setDuplicate sc)\<rparr>
               else sc\<lparr>setSerials := S, setPubcoins := P,
                       nNetworkRewardReserve :=
                         scanOutputs (rewardScript ch) (vpout ptx) (nNetworkRewardReserve sc)\<rparr>))"

fun screenBlock :: "Chain \<Rightarrow> int \<Rightarrow> CTransactionRef list \<Rightarrow> Screening \<Rightarrow> Screening" where
  "screenBlock ch h [] sc = sc"
| "screenBlock ch h (None # rest) sc = screenBlock ch h rest sc"
| "screenBlock ch h (Some ptx # rest) sc = screenBlock ch h rest (screenTx ch h ptx sc)"

text \<open>
  The second loop: the new transaction list, and the transactions handed to
  \<open>mempool.removeRecursive\<close>, in the order of the calls.
\<close>

fun rebuild :: "Chain \<Rightarrow> uint256 set \<Rightarrow> CTransactionRef list
    \<Rightarrow> CTransactionRef list \<times> CTransaction list" where
  "rebuild ch dup [] = ([], [])"
| "rebuild ch dup (None # rest) = (None # fst (rebuild ch dup rest), snd (rebuild ch dup rest))"
| "rebuild ch dup (Some tx # rest) =
     (if GetHash tx \<in> dup then (fst (rebuild ch dup rest), tx # snd (rebuild ch dup rest))
      else if \<not> IsZerocoinSpend tx \<and> \<not> vin0_IsAnonInput tx \<and> \<not> HaveInputs ch tx
      then rebuild ch dup rest
      else (Some tx # fst (rebuild ch dup rest), snd (rebuild ch dup rest)))"

subsection \<open>The coinbase\<close>

text \<open>
  The outputs are pointers: \<open>resize\<close> fills the vector with null pointers, an assignment
  beyond its size is undefined and ends the run here. A fresh \<open>CTxOutStandard\<close> has the
  empty script and a value the constructor does not set, the argument \<open>v\<close>.
\<close>

definition MAKE_OUTPUT_CTxOutStandard :: "CAmount \<Rightarrow> CTxOut" where
  "MAKE_OUTPUT_CTxOutStandard v = \<lparr>IsStandardOutput = True, scriptPubKey = [], nValue = v\<rparr>"

definition assign :: "nat \<Rightarrow> CTxOut \<Rightarrow> CTxOut option list \<Rightarrow> error + CTxOut option list" where
  "assign i out outs = (if i < length outs then Inr (outs[i := Some out]) else Inl OutOfRange)"

definition andThen :: "error + 'a \<Rightarrow> ('a \<Rightarrow> error + 'b) \<Rightarrow> error + 'b" where
  "andThen r f = (case r of Inl e \<Rightarrow> Inl e | Inr x \<Rightarrow> f x)"

definition coinbase_vpout :: "Chain \<Rightarrow> CScript \<Rightarrow> bool \<Rightarrow> CAmount \<Rightarrow> CAmount \<Rightarrow> CAmount \<Rightarrow> CAmount
    \<Rightarrow> CAmount \<Rightarrow> CAmount \<Rightarrow> error + CTxOut option list" where
  "coinbase_vpout ch scriptPubKeyIn fProofOfStake nBlockReward nFounderPayment nLabPayment
       nBudgetPayment nNetworkReward v =
     andThen (assign 0 (MAKE_OUTPUT_CTxOutStandard v)
       (replicate
          (if nBudgetPayment > 0 \<and> nFounderPayment > 0 then (if fProofOfStake then 3 else 4)
           else if nBudgetPayment > 0 then (if fProofOfStake then 2 else 3)
           else 1) None))
     (\<lambda>v0. andThen
       (if \<not> fProofOfStake
        then assign 0 \<lparr>IsStandardOutput = True, scriptPubKey = scriptPubKeyIn,
                        nValue = nBlockReward + nNetworkReward\<rparr> v0
        else Inr v0)
     (\<lambda>v1. andThen
       (if nBudgetPayment \<noteq> 0
        then andThen (assign (if fProofOfStake then 0 else 1)
                 \<lparr>IsStandardOutput = True, scriptPubKey = budgetScript ch,
                  nValue = nBudgetPayment\<rparr> v1)
             (\<lambda>v2. andThen (assign (if fProofOfStake then 1 else 2)
                 \<lparr>IsStandardOutput = True, scriptPubKey = labScript ch,
                  nValue = nLabPayment\<rparr> v2)
             (\<lambda>v3. if nFounderPayment \<noteq> 0
                then assign (if fProofOfStake then 2 else 3)
                   \<lparr>IsStandardOutput = True, scriptPubKey = founderScript ch,
                    nValue = nFounderPayment\<rparr> v3
                else Inr v3))
        else Inr v1)
     (\<lambda>v4. if fProofOfStake \<and> nBudgetPayment = 0
        then (case v4 of
                Some out # rest \<Rightarrow> Inr (Some (out\<lparr>nValue := 0, scriptPubKey := []\<rparr>) # rest)
              | _ \<Rightarrow> Inl NullOutput)
        else Inr v4)))"

text \<open>A transaction with a null output cannot be hashed: the run ends.\<close>

definition MakeTransactionRef_coinbase :: "Chain \<Rightarrow> int list \<Rightarrow> CTxOut option list
    \<Rightarrow> error + CTransaction" where
  "MakeTransactionRef_coinbase ch sig outs =
     (if None \<in> set outs then Inl NullOutput
      else Inr \<lparr>GetHash = ComputeHash ch sig (map the outs), IsZerocoinSpend = False,
                IsZerocoinMint = False, vSerialHashes = [], vPubcoinHashes = [],
                vin0_IsAnonInput = False, HasWitness = False, scriptSig0 = sig,
                vpout = map the outs\<rparr>)"

subsection \<open>Construction and CreateNewBlock\<close>

record Options =
  options_blockMinFeeRate :: CAmount
  options_nBlockMaxWeight :: uint64_t

text \<open>
  \<open>DefaultOptions\<close> reads \<open>-blockmaxweight\<close> and \<open>-blockmintxfee\<close>; an argument that is not
  set is \<open>None\<close>, and the two defaults of policy/policy.h are parameters.
\<close>

definition DefaultOptions :: "uint64_t \<Rightarrow> CAmount \<Rightarrow> uint64_t option \<Rightarrow> CAmount option \<Rightarrow> Options" where
  "DefaultOptions DEFAULT_BLOCK_MAX_WEIGHT DEFAULT_BLOCK_MIN_TX_FEE blockmaxweight blockmintxfee =
     \<lparr>options_blockMinFeeRate =
        (case blockmintxfee of Some n \<Rightarrow> n | None \<Rightarrow> DEFAULT_BLOCK_MIN_TX_FEE),
      options_nBlockMaxWeight =
        (case blockmaxweight of Some w \<Rightarrow> w | None \<Rightarrow> DEFAULT_BLOCK_MAX_WEIGHT)\<rparr>"

text \<open>
  The constructor sets the two configuration members; the others are set by
  \<open>resetBlock\<close> and \<open>CreateNewBlock\<close> before they are read.
\<close>

definition BlockAssembler_new :: "Consensus \<Rightarrow> Options \<Rightarrow> BlockAssembler" where
  "BlockAssembler_new cp options =
     \<lparr>nBlockMaxWeight = max 4000 (min (MAX_BLOCK_WEIGHT cp div 4) (options_nBlockMaxWeight options)),
      blockMinFeeRate = options_blockMinFeeRate options,
      nBlockWeight = 0, nBlockTx = 0, nBlockSigOpsCost = 0, nFees = 0,
      fIncludeWitness = False, nHeight = 0, nLockTimeCutoff = 0, inBlock = [], vtx = [],
      vTxFees = [], vTxSigOpsCost = []\<rparr>"

definition resetBlock :: "BlockAssembler \<Rightarrow> BlockAssembler" where
  "resetBlock a =
     a\<lparr>inBlock := [], nBlockWeight := 4000, nBlockSigOpsCost := 400, fIncludeWitness := False,
       nBlockTx := 0, nFees := 0\<rparr>"

text \<open>A default-constructed \<open>CMutableTransaction\<close>, made a transaction.\<close>

definition emptyTransaction :: "Chain \<Rightarrow> CTransaction" where
  "emptyTransaction ch =
     \<lparr>GetHash = ComputeHash ch [] [], IsZerocoinSpend = False, IsZerocoinMint = False,
      vSerialHashes = [], vPubcoinHashes = [], vin0_IsAnonInput = False, HasWitness = False,
      scriptSig0 = [], vpout = []\<rparr>"

text \<open>
  \<open>CreateNewBlock\<close> from the screening on, for the assembler \<open>a\<close> that \<open>addPackageTxs\<close>
  leaves and the coinstake \<open>txCoinStake\<close>. The result is the list of transactions handed to
  \<open>mempool.removeRecursive\<close> and the template or the reason for none. The screening starts
  from empty sets and the reserve the previous block carries; the network reward is the
  reserve it ends with, capped. The header fields and the signature-operation costs of the
  template are not modelled.
\<close>

definition screening :: "Chain \<Rightarrow> BlockAssembler \<Rightarrow> Screening" where
  "screening ch a =
     screenBlock ch (nHeight a) (vtx a)
       \<lparr>setSerials = {}, setPubcoins = {}, setDuplicate = {},
        nNetworkRewardReserve = prevNetworkRewardReserve ch\<rparr>"

definition nNetworkReward :: "Chain \<Rightarrow> BlockAssembler \<Rightarrow> CAmount" where
  "nNetworkReward ch a =
     (if nNetworkRewardReserve (screening ch a) > MaxNetworkReward ch
      then MaxNetworkReward ch else nNetworkRewardReserve (screening ch a))"

definition finishBlock :: "Chain \<Rightarrow> CWallet option \<Rightarrow> CAmount \<Rightarrow> CScript \<Rightarrow> bool \<Rightarrow> CTransaction
    \<Rightarrow> BlockAssembler \<Rightarrow> CTransaction list \<times> (error + CBlockTemplate)" where
  "finishBlock ch pwalletMain v scriptPubKeyIn fProofOfStake txCoinStake a =
     (let (vtxReplace, removed) = rebuild ch (setDuplicate (screening ch a)) (vtx a);
          (nBlockReward, nFounderPayment, nLabPayment, nBudgetPayment) =
             GetBlockRewards ch (nHeight a)
      in (removed,
          andThen (coinbase_vpout ch scriptPubKeyIn fProofOfStake nBlockReward nFounderPayment
                     nLabPayment nBudgetPayment (nNetworkReward ch a) v)
          (\<lambda>outs. andThen (MakeTransactionRef_coinbase ch [nHeight a, 0] outs)
          (\<lambda>coinbaseTx.
             let vtx1 = (if fProofOfStake
                         then (vtxReplace @ replicate (2 - length vtxReplace) None)
                                [1 := Some txCoinStake]
                         else vtxReplace);
                 vtx2 = vtx1[0 := Some coinbaseTx];
                 tmpl = \<lparr>block_vtx = vtx2, block_fProofOfStake = fProofOfStake,
                         template_vTxFees = (vTxFees a)[0 := - nFees a]\<rparr>
             in if vtx1 = [] then Inl OutOfRange
                else if fProofOfStake \<and> \<not> IsZerocoinSpend txCoinStake then Inl StakeNotZerocoinSpend
                else if fProofOfStake \<and> \<not> TxInToZerocoinSpend ch txCoinStake then Inl SpendUnreadable
                else if fProofOfStake \<and> \<not> (case pwalletMain of Some w \<Rightarrow> GetZerocoinKey w | None \<Rightarrow> False)
                then Inl KeyMissing
                else if fProofOfStake \<and> \<not> (case pwalletMain of Some w \<Rightarrow> Sign w | None \<Rightarrow> False)
                then Inl SignFailed
                else if \<not> TestBlockValidity ch vtx2 then Inl TemplateInvalid
                else Inr tmpl))))"

text \<open>
  The assembler as \<open>CreateNewBlock\<close> hands it to \<open>addPackageTxs\<close>: reset, with the dummy
  coinbase as the only transaction, the height one above the tip, and witness
  transactions allowed.
\<close>

definition startBlock :: "Chain \<Rightarrow> BlockAssembler \<Rightarrow> BlockAssembler" where
  "startBlock ch a =
     (resetBlock a)\<lparr>vtx := [None], vTxFees := [- 1], vTxSigOpsCost := [- 1],
       nHeight := tipHeight ch + 1, nLockTimeCutoff := lockTimeCutoff ch,
       fIncludeWitness := True\<rparr>"

definition CreateNewBlock :: "nat \<Rightarrow> Chain \<Rightarrow> CTxMemPool \<Rightarrow> CWallet option \<Rightarrow> bool \<Rightarrow> CAmount
    \<Rightarrow> BlockAssembler \<Rightarrow> CScript \<Rightarrow> bool \<Rightarrow> CTransaction list \<times> (error + CBlockTemplate)" where
  "CreateNewBlock fuel ch pool pwalletMain fLockMem v a scriptPubKeyIn fProofOfStake =
     (if fProofOfStake \<and> pwalletMain = None then ([], Inl WalletUnavailable)
      else if fProofOfStake \<and> tipHeight ch + 1 \<ge> HeightPoSStart ch
              \<and> (case pwalletMain of Some w \<Rightarrow> CreateCoinStake w = None | None \<Rightarrow> True)
      then ([], Inl CoinstakeFailed)
      else if \<not> fLockMem then ([], Inl MempoolBusy)
      else
        (let txCoinStake =
               (if fProofOfStake \<and> tipHeight ch + 1 \<ge> HeightPoSStart ch
                then (case pwalletMain of
                        Some w \<Rightarrow> (case CreateCoinStake w of Some tx \<Rightarrow> tx
                                   | None \<Rightarrow> emptyTransaction ch)
                      | None \<Rightarrow> emptyTransaction ch)
                else emptyTransaction ch)
         in case addPackageTxs fuel ch pool (startBlock ch a) of
              Inl e \<Rightarrow> ([], Inl e)
            | Inr s \<Rightarrow> finishBlock ch pwalletMain v scriptPubKeyIn fProofOfStake txCoinStake (asm s)))"

subsection \<open>The miner: extra nonce\<close>

text \<open>
  The state that outlives a call: \<open>nNonce_base\<close>, the static \<open>int32_t\<close> the miner threads
  share under \<open>cs_nonce\<close>, and the static \<open>hashPrevBlock\<close> of \<open>IncrementExtraNonce\<close>.
\<close>

record MinerStatics =
  nNonce_base :: "32 word"
  hashPrevBlock :: uint256

text \<open>
  \<open>IncrementExtraNonce\<close> for a block with the given \<open>hashPrevBlock\<close> and transactions: the
  statics, the extra nonce it leaves in the caller's variable, and the transactions with
  the new script of the coinbase, the list of the values pushed followed by
  \<open>COINBASE_FLAGS\<close>. The function copies \<open>*pblock->vtx[0]\<close>: a block with no transaction or
  with a null reference in front has no run that returns. The size in bytes of the script,
  which the function asserts to be at most 100, is \<open>CScript::size\<close> of script/script.h,
  which is not among the sources: it is the parameter \<open>scriptSig_size\<close>.
\<close>

definition IncrementExtraNonce :: "(int list \<Rightarrow> nat) \<Rightarrow> int list \<Rightarrow> int \<Rightarrow> MinerStatics \<Rightarrow> uint256
    \<Rightarrow> CTransactionRef list \<Rightarrow> 32 word
    \<Rightarrow> error + MinerStatics \<times> 32 word \<times> CTransactionRef list" where
  "IncrementExtraNonce scriptSig_size COINBASE_FLAGS tipHeight' st block_hashPrevBlock block_vtx'
       nExtraNonce =
     (let (st1, n1) = (if hashPrevBlock st \<noteq> block_hashPrevBlock
                       then (st\<lparr>hashPrevBlock := block_hashPrevBlock\<rparr>, 0)
                       else (st, nExtraNonce));
          n2 = n1 + 1
      in case block_vtx' of
           [] \<Rightarrow> Inl OutOfRange
         | None # rest \<Rightarrow> Inl NullDereference
         | Some txCoinbase # rest \<Rightarrow>
             (let scriptSig = [tipHeight' + 1, uint n2] @ COINBASE_FLAGS
              in if scriptSig_size scriptSig \<le> 100
                 then Inr (st1, n2, Some (txCoinbase\<lparr>scriptSig0 := scriptSig\<rparr>) # rest)
                 else Inl AssertionFailed))"

text \<open>
  The reservation in \<open>BitcoinMiner\<close> for a proof-of-work template, \<open>nNonceLocal =
  nNonce_base++\<close>, followed by the call of \<open>IncrementExtraNonce\<close> with \<open>nExtraNonce =
  nNonceLocal\<close>. The result is the statics, the value reserved, the extra nonce and the
  transactions, or the way the call ends the run.
\<close>

definition reserveExtraNonce :: "(int list \<Rightarrow> nat) \<Rightarrow> int list \<Rightarrow> int \<Rightarrow> MinerStatics \<Rightarrow> uint256
    \<Rightarrow> CTransactionRef list
    \<Rightarrow> error + MinerStatics \<times> 32 word \<times> 32 word \<times> CTransactionRef list" where
  "reserveExtraNonce scriptSig_size COINBASE_FLAGS tipHeight' st block_hashPrevBlock block_vtx' =
     (let nNonceLocal = nNonce_base st;
          st1 = st\<lparr>nNonce_base := nNonce_base st + 1\<rparr>
      in case IncrementExtraNonce scriptSig_size COINBASE_FLAGS tipHeight' st1 block_hashPrevBlock
                block_vtx' nNonceLocal of
           Inl e \<Rightarrow> Inl e
         | Inr (st2, nExtraNonce, vtx') \<Rightarrow> Inr (st2, nNonceLocal, nExtraNonce, vtx'))"

subsection \<open>The miner: waiting for the wallet\<close>

text \<open>
  The globals \<open>fMintableCoins\<close> and \<open>nMintableLastCheck\<close>, an \<open>int\<close> of 32 bits, and what the
  staking thread reads in one pass: the wallet's answers, \<open>GetTime()\<close>,
  \<open>GetAdjustedTime()\<close>, the time of the tip and \<open>MAX_PAST_BLOCK_TIME\<close>, which are \<open>int64_t\<close>.
\<close>

record MintableState =
  fMintableCoins :: bool
  nMintableLastCheck :: "32 word"

record StakingView =
  IsLocked :: bool
  IsUnlockedForStakingOnly :: bool
  MintableCoins :: bool
  GetTime :: int64_t
  GetAdjustedTime :: int64_t
  nTimeLastBlock :: int64_t
  MAX_PAST_BLOCK_TIME :: int64_t

datatype wait_result = NextIter | Proceed

text \<open>
  Lines 771 to 794 of \<open>BitcoinMiner\<close>. The body of the \<open>while\<close> ends in an unconditional
  \<open>break\<close>, so it runs once if the condition holds and never again: the loop is a
  conditional. The result is the globals, the sleeps in milliseconds, and whether the
  thread goes back to the head of its loop (\<open>fNextIter\<close>) or on to the template. The
  differences of times are computed in 64 bits, \<open>nMintableLastCheck\<close> extended with its
  sign; the assignment to \<open>nMintableLastCheck\<close> keeps the low 32 bits of the time.
\<close>

definition waitForWallet :: "StakingView \<Rightarrow> MintableState \<Rightarrow> MintableState \<times> int list \<times> wait_result" where
  "waitForWallet w g =
     (let g1 = (if sint (GetTime w - scast (nMintableLastCheck g)) > 5 * 60
                then \<lparr>fMintableCoins = MintableCoins w, nMintableLastCheck = ucast (GetTime w)\<rparr>
                else g)
      in if (IsLocked w \<and> \<not> IsUnlockedForStakingOnly w) \<or> \<not> fMintableCoins g1
            \<or> sint (GetAdjustedTime w) < sint (nTimeLastBlock w - MAX_PAST_BLOCK_TIME w)
         then
           (let g2 = (if \<not> fMintableCoins g1
                         \<and> sint (GetTime w - scast (nMintableLastCheck g1)) > 1 * 60
                      then \<lparr>fMintableCoins = MintableCoins w, nMintableLastCheck = ucast (GetTime w)\<rparr>
                      else g1);
                fNextIter = (\<not> fMintableCoins g1 \<and> \<not> fMintableCoins g2)
            in (g2, [2500], if fNextIter then NextIter else Proceed))
         else (g1, [], Proceed))"

subsection \<open>Example inputs\<close>

text \<open>
  A transaction with the given hash, serial hashes, pubcoin hashes and outputs; it is a
  zerocoin spend if it has serial hashes and a mint if it has pubcoin hashes.
\<close>

definition exampleTx :: "uint256 \<Rightarrow> uint256 list \<Rightarrow> uint256 list \<Rightarrow> CTxOut list \<Rightarrow> CTransaction" where
  "exampleTx h serials pubcoins outs =
     \<lparr>GetHash = h, IsZerocoinSpend = (serials \<noteq> []), IsZerocoinMint = (pubcoins \<noteq> []),
      vSerialHashes = serials, vPubcoinHashes = pubcoins, vin0_IsAnonInput = False,
      HasWitness = False, scriptSig0 = [], vpout = outs\<rparr>"

text \<open>
  A chain at height 99 in which the given serial and pubcoin hashes are confirmed, the
  transactions with the given hashes are not final, every transaction has its inputs and
  every block is valid. The reward script is \<open>[1]\<close>, the reserve carried is 5 and the cap
  is 100.
\<close>

definition exampleChain :: "uint256 list \<Rightarrow> uint256 list \<Rightarrow> uint256 list
    \<Rightarrow> CAmount \<times> CAmount \<times> CAmount \<times> CAmount \<Rightarrow> Chain" where
  "exampleChain serials pubcoins nonfinal rewards =
     \<lparr>consensus = \<lparr>WITNESS_SCALE_FACTOR = 4, MAX_BLOCK_SIGOPS_COST = 80000,
                    MAX_BLOCK_WEIGHT = 4000000\<rparr>,
      tipHeight = 99, HeightPoSStart = 10, lockTimeCutoff = 0,
      IsFinalTx = (\<lambda>tx h t. GetHash tx \<notin> set nonfinal),
      IsSerialInBlockchain = (\<lambda>h n. h \<in> set serials),
      IsPubcoinInBlockchain = (\<lambda>h. h \<in> set pubcoins),
      HaveInputs = (\<lambda>tx. True),
      prevNetworkRewardReserve = 5, rewardScript = [1], MaxNetworkReward = 100,
      GetBlockRewards = (\<lambda>h. rewards),
      budgetScript = [2], labScript = [3], founderScript = [4],
      ComputeHash = (\<lambda>sig outs. 0),
      TxInToZerocoinSpend = (\<lambda>tx. True),
      TestBlockValidity = (\<lambda>txs. True)\<rparr>"

text \<open>
  A size of scripts that counts nine bytes for every element, which no push of a number of
  64 bits exceeds.
\<close>

definition exampleScriptSize :: "int list \<Rightarrow> nat" where
  "exampleScriptSize script = 9 * length script"

text \<open>
  The pool of the first scenario of the spec: A (handle 1, fee 100), its child B (handle 2,
  fee 200) and C (handle 3, fee 50), each of size 100. The index by ancestor score has B
  first, then A, then C; the comparator compares the fee rates with ancestors by cross
  multiplication.
\<close>

definition exampleEntry :: "txiter \<Rightarrow> CTxMemPoolEntry" where
  "exampleEntry h =
     \<lparr>GetSharedTx = exampleTx h [] [] [],
      GetTxSize = 100, GetTxWeight = 400,
      GetFee = (if h = 1 then 100 else if h = 2 then 200 else 50),
      GetModifiedFee = (if h = 1 then 100 else if h = 2 then 200 else 50),
      GetSigOpCost = 4,
      GetCountWithAncestors = (if h = 2 then 2 else 1),
      GetSizeWithAncestors = (if h = 2 then 200 else 100),
      GetModFeesWithAncestors = (if h = 1 then 100 else if h = 2 then 300 else 50),
      GetSigOpCostWithAncestors = (if h = 2 then 8 else 4)\<rparr>"

definition examplePool :: CTxMemPool where
  "examplePool =
     \<lparr>mapTx = exampleEntry,
      ancestor_score = [2, 1, 3],
      CalculateDescendants = (\<lambda>h. if h = 1 then [1, 2] else [h]),
      CalculateMemPoolAncestors = (\<lambda>h. if h = 2 then [1] else []),
      CompareTxMemPoolEntryByAncestorFee =
        (\<lambda>a b. nModFeesWithAncestors a * uint (nSizeWithAncestors b)
                 > nModFeesWithAncestors b * uint (nSizeWithAncestors a))\<rparr>"

text \<open>
  A validity test that accepts a block with B (handle 2) only if it holds A (handle 1).
\<close>

definition exampleValidity :: "CTransactionRef list \<Rightarrow> bool" where
  "exampleValidity txs \<longleftrightarrow>
     (Some (exampleTx 2 [] [] []) \<in> set txs \<longrightarrow> Some (exampleTx 1 [] [] []) \<in> set txs)"

definition exampleAssembler :: BlockAssembler where
  "exampleAssembler =
     BlockAssembler_new \<lparr>WITNESS_SCALE_FACTOR = 4, MAX_BLOCK_SIGOPS_COST = 80000,
                          MAX_BLOCK_WEIGHT = 4000000\<rparr>
       \<lparr>options_blockMinFeeRate = 1000, options_nBlockMaxWeight = 3000000\<rparr>"

text \<open>
  Two states of the selection loop on this pool, the block holding the dummy coinbase
  only: one whose next candidate is C from the index of the pool, and one whose next
  candidate is C from the modified index.
\<close>

definition exampleLoopState :: PackageLoop where
  "exampleLoopState =
     \<lparr>asm = (resetBlock exampleAssembler)
               \<lparr>vtx := [None], nHeight := 100, fIncludeWitness := True\<rparr>,
      mi = [3], mapModifiedTx = [], failedTx = [], nConsecutiveFailed = 7,
      nPackagesSelected = 0, nDescendantsUpdated = 0\<rparr>"

definition exampleLoopStateModified :: PackageLoop where
  "exampleLoopStateModified =
     \<lparr>asm = (resetBlock exampleAssembler)
               \<lparr>vtx := [None], nHeight := 100, fIncludeWitness := True\<rparr>,
      mi = [],
      mapModifiedTx = [\<lparr>iter = 3, nSizeWithAncestors = 100, nModFeesWithAncestors = 50,
                        nSigOpCostWithAncestors = 4\<rparr>],
      failedTx = [], nConsecutiveFailed = 7, nPackagesSelected = 0, nDescendantsUpdated = 0\<rparr>"

text \<open>The assembler after a selection that found nothing, at height 100.\<close>

definition exampleEmptyBlock :: BlockAssembler where
  "exampleEmptyBlock =
     (resetBlock exampleAssembler)
       \<lparr>vtx := [None], vTxFees := [- 1], vTxSigOpsCost := [- 1], nHeight := 100,
        fIncludeWitness := True\<rparr>"

text \<open>The assembler after a selection that put the given transactions into the block.\<close>

definition exampleBlock :: "CTransaction list \<Rightarrow> BlockAssembler" where
  "exampleBlock txs = exampleEmptyBlock\<lparr>vtx := None # map Some txs\<rparr>"

text \<open>
  The coinbase of a proof-of-work template at height 100 for the payout script \<open>[8]\<close>, with
  miner output \<open>n\<close> and no budget, and the template with this coinbase and the given
  transactions.
\<close>

definition exampleCoinbase :: "CAmount \<Rightarrow> CTransaction" where
  "exampleCoinbase n =
     \<lparr>GetHash = 0, IsZerocoinSpend = False, IsZerocoinMint = False, vSerialHashes = [],
      vPubcoinHashes = [], vin0_IsAnonInput = False, HasWitness = False, scriptSig0 = [100, 0],
      vpout = [\<lparr>IsStandardOutput = True, scriptPubKey = [8], nValue = n\<rparr>]\<rparr>"

definition exampleTemplate :: "CAmount \<Rightarrow> CTransaction list \<Rightarrow> CBlockTemplate" where
  "exampleTemplate n txs =
     \<lparr>block_vtx = Some (exampleCoinbase n) # map Some txs, block_fProofOfStake = False,
      template_vTxFees = [0]\<rparr>"

subsection \<open>The coinbase outputs as the spec tabulates them\<close>

text \<open>
  The matrix of section 4.3 of the spec, by the words of the spec: the outputs are chosen
  by whether the block is proof of stake, whether the budget payment is positive and
  whether the founder payment is positive; the miner output carries the block reward plus
  the network reward; the empty output has value 0 and the empty script.
\<close>

definition spec_coinbase_outputs :: "Chain \<Rightarrow> CScript \<Rightarrow> bool
    \<Rightarrow> CAmount \<times> CAmount \<times> CAmount \<times> CAmount \<Rightarrow> CAmount \<Rightarrow> CTxOut list" where
  "spec_coinbase_outputs ch scriptPubKeyIn isPoS rewards networkReward =
     (case rewards of (blockReward, founderPayment, labPayment, budgetPayment) \<Rightarrow>
        let miner = \<lparr>IsStandardOutput = True, scriptPubKey = scriptPubKeyIn,
                     nValue = blockReward + networkReward\<rparr>;
            budget = \<lparr>IsStandardOutput = True, scriptPubKey = budgetScript ch,
                      nValue = budgetPayment\<rparr>;
            lab = \<lparr>IsStandardOutput = True, scriptPubKey = labScript ch, nValue = labPayment\<rparr>;
            founder = \<lparr>IsStandardOutput = True, scriptPubKey = founderScript ch,
                       nValue = founderPayment\<rparr>;
            empty = \<lparr>IsStandardOutput = True, scriptPubKey = [], nValue = 0\<rparr>
        in case (isPoS, budgetPayment > 0, founderPayment > 0) of
             (False, False, _) \<Rightarrow> [miner]
           | (False, True, False) \<Rightarrow> [miner, budget, lab]
           | (False, True, True) \<Rightarrow> [miner, budget, lab, founder]
           | (True, False, _) \<Rightarrow> [empty]
           | (True, True, False) \<Rightarrow> [budget, lab]
           | (True, True, True) \<Rightarrow> [budget, lab, founder])"

subsection \<open>Notions for stating the properties\<close>

text \<open>The transactions of a list of references, the null references left out.\<close>

fun txsOf :: "CTransactionRef list \<Rightarrow> CTransaction list" where
  "txsOf [] = []"
| "txsOf (None # rest) = txsOf rest"
| "txsOf (Some tx # rest) = tx # txsOf rest"

text \<open>What the second loop of the screening keeps, for the set of duplicates \<open>dup\<close>.\<close>

definition keptByRebuild :: "Chain \<Rightarrow> uint256 set \<Rightarrow> CTransactionRef \<Rightarrow> bool" where
  "keptByRebuild ch dup r =
     (case r of
        None \<Rightarrow> True
      | Some tx \<Rightarrow> GetHash tx \<notin> dup
          \<and> (IsZerocoinSpend tx \<or> vin0_IsAnonInput tx \<or> HaveInputs ch tx))"

text \<open>
  The state of the screening when it has gone through the transactions \<open>as\<close> at the head of
  the block, and the hash sets of a transaction as the first loop fills them.
\<close>

definition screeningUpTo :: "Chain \<Rightarrow> BlockAssembler \<Rightarrow> CTransactionRef list \<Rightarrow> Screening" where
  "screeningUpTo ch a as =
     screenBlock ch (nHeight a) as
       \<lparr>setSerials = {}, setPubcoins = {}, setDuplicate = {},
        nNetworkRewardReserve = prevNetworkRewardReserve ch\<rparr>"

definition setTxSerialHashes :: "CTransaction \<Rightarrow> uint256 list" where
  "setTxSerialHashes ptx = (if IsZerocoinSpend ptx then TxToSerialHashSet ptx else [])"

definition setTxPubcoinHashes :: "CTransaction \<Rightarrow> uint256 list" where
  "setTxPubcoinHashes ptx = (if IsZerocoinMint ptx then TxToPubcoinHashSet ptx else [])"

text \<open>
  The hashes that the loop over the serial hashes, and the loop over the pubcoin hashes,
  examines before it is left: those it goes past without a collision, each of which it
  records.
\<close>

fun examinedSerials :: "Chain \<Rightarrow> int \<Rightarrow> uint256 list \<Rightarrow> uint256 set \<Rightarrow> uint256 list" where
  "examinedSerials ch h [] S = []"
| "examinedSerials ch h (x # xs) S =
     (if x \<in> S \<or> IsSerialInBlockchain ch x h then []
      else x # examinedSerials ch h xs (insert x S))"

fun examinedPubcoins :: "Chain \<Rightarrow> uint256 list \<Rightarrow> uint256 set \<Rightarrow> uint256 list" where
  "examinedPubcoins ch [] P = []"
| "examinedPubcoins ch (x # xs) P =
     (if x \<in> P \<or> IsPubcoinInBlockchain ch x then []
      else x # examinedPubcoins ch xs (insert x P))"

text \<open>
  The transaction of a handle as \<open>AddToBlock\<close> puts it into the block, and whether, in a
  sequence of handles that follows the handles \<open>seen\<close>, every handle comes after all its
  in-pool ancestors.
\<close>

definition blockTx :: "CTxMemPool \<Rightarrow> txiter \<Rightarrow> CTransactionRef" where
  "blockTx pool h = Some (GetSharedTx (mapTx pool h))"

fun ancestorsBefore :: "CTxMemPool \<Rightarrow> txiter list \<Rightarrow> txiter list \<Rightarrow> bool" where
  "ancestorsBefore pool seen [] = True"
| "ancestorsBefore pool seen (T # rest) =
     (set (CalculateMemPoolAncestors pool T) \<subseteq> set seen
      \<and> ancestorsBefore pool (seen @ [T]) rest)"

text \<open>
  \<open>committed pool a hs\<close>: the block of the assembler \<open>a\<close> is the dummy coinbase followed
  by the transactions of the handles \<open>hs\<close>, which are distinct, are the handles recorded in
  \<open>inBlock\<close>, and come each after all its in-pool ancestors.
\<close>

definition committed :: "CTxMemPool \<Rightarrow> BlockAssembler \<Rightarrow> txiter list \<Rightarrow> bool" where
  "committed pool a hs \<longleftrightarrow>
     distinct hs \<and> set hs = set (inBlock a) \<and> vtx a = None # map (blockTx pool) hs
     \<and> ancestorsBefore pool [] hs"

text \<open>
  What the selection relies on in the pool, as the comment in \<open>SortForBlock\<close> has it: the
  ancestors of an ancestor of an entry are ancestors of the entry, and an entry has a
  greater ancestor count than each of its ancestors.
\<close>

definition consistentAncestors :: "CTxMemPool \<Rightarrow> bool" where
  "consistentAncestors pool \<longleftrightarrow>
     (\<forall>h x. x \<in> set (CalculateMemPoolAncestors pool h) \<longrightarrow>
        set (CalculateMemPoolAncestors pool x) \<subseteq> set (CalculateMemPoolAncestors pool h)
        \<and> GetCountWithAncestors (mapTx pool x) < GetCountWithAncestors (mapTx pool h))"

text \<open>
  What the pool and the validity test provide beyond the selection. Distinct entries of
  the pool hold distinct transactions. \<open>TestBlockValidity\<close>, which is not among the sources
  and on whose failure \<open>CreateNewBlock\<close> throws, accepts no block that holds a transaction
  of the pool without its in-pool ancestors: their outputs are not yet in the chain.
\<close>

definition uniqueTransactions :: "CTxMemPool \<Rightarrow> bool" where
  "uniqueTransactions pool \<longleftrightarrow> (\<forall>h k. blockTx pool h = blockTx pool k \<longrightarrow> h = k)"

definition validityNeedsAncestors :: "Chain \<Rightarrow> CTxMemPool \<Rightarrow> bool" where
  "validityNeedsAncestors ch pool \<longleftrightarrow>
     (\<forall>txs h x. TestBlockValidity ch txs \<and> blockTx pool h \<in> set txs
         \<and> x \<in> set (CalculateMemPoolAncestors pool h) \<longrightarrow> blockTx pool x \<in> set txs)"

text \<open>A state of the selection loop with another minimum fee rate configured.\<close>

definition withMinFeeRate :: "CAmount \<Rightarrow> PackageLoop \<Rightarrow> PackageLoop" where
  "withMinFeeRate r s = s\<lparr>asm := (asm s)\<lparr>blockMinFeeRate := r\<rparr>\<rparr>"

text \<open>What the standard outputs of a transaction send to the network reward address.\<close>

definition rewardOutputs :: "Chain \<Rightarrow> CTransaction \<Rightarrow> CAmount" where
  "rewardOutputs ch tx =
     sum_list (map nValue
       (filter (\<lambda>pout. IsStandardOutput pout \<and> scriptPubKey pout = rewardScript ch) (vpout tx)))"

text \<open>
  The transactions of a template that come from the pool: all but the coinbase and, in a
  proof-of-stake template, the coinstake.
\<close>

definition poolPart :: "CBlockTemplate \<Rightarrow> CTransactionRef list" where
  "poolPart tmpl = drop (if block_fProofOfStake tmpl then 2 else 1) (block_vtx tmpl)"

section \<open>Properties\<close>

subsection \<open>C5: the fit test\<close>

text \<open>
  Claim C5. In every accounting state and for every package, \<open>TestPackage\<close> returns true
  if and only if \<open>nBlockWeight + WITNESS_SCALE_FACTOR * packageSize < nBlockMaxWeight\<close> and
  \<open>nBlockSigOpsCost + packageSigOpsCost < MAX_BLOCK_SIGOPS_COST\<close>, both inequalities strict.
  The sums are those the function computes, in unsigned 64-bit arithmetic; the second
  conjunct of the theorem adds that they are the sums of the numbers whenever these stay
  below \<open>2 ^ 64\<close>.
\<close>

theorem TestPackage_iff:
  "(TestPackage cp a packageSize packageSigOpsCost \<longleftrightarrow>
      nBlockWeight a + WITNESS_SCALE_FACTOR cp * packageSize < nBlockMaxWeight a \<and>
      nBlockSigOpsCost a + packageSigOpsCost < MAX_BLOCK_SIGOPS_COST cp) \<and>
   (unat (nBlockWeight a) + unat (WITNESS_SCALE_FACTOR cp) * unat packageSize < 2 ^ 64 \<and>
    unat (nBlockSigOpsCost a) + unat packageSigOpsCost < 2 ^ 64 \<longrightarrow>
      (TestPackage cp a packageSize packageSigOpsCost \<longleftrightarrow>
         unat (nBlockWeight a) + unat (WITNESS_SCALE_FACTOR cp) * unat packageSize
           < unat (nBlockMaxWeight a) \<and>
         unat (nBlockSigOpsCost a) + unat packageSigOpsCost < unat (MAX_BLOCK_SIGOPS_COST cp)))"
proof (intro conjI impI)
  show "TestPackage cp a packageSize packageSigOpsCost \<longleftrightarrow>
      nBlockWeight a + WITNESS_SCALE_FACTOR cp * packageSize < nBlockMaxWeight a \<and>
      nBlockSigOpsCost a + packageSigOpsCost < MAX_BLOCK_SIGOPS_COST cp"
    by (auto simp: TestPackage_def not_le)
next
  assume h: "unat (nBlockWeight a) + unat (WITNESS_SCALE_FACTOR cp) * unat packageSize < 2 ^ 64 \<and>
    unat (nBlockSigOpsCost a) + unat packageSigOpsCost < 2 ^ 64"
  have w1: "unat (WITNESS_SCALE_FACTOR cp * packageSize)
      = unat (WITNESS_SCALE_FACTOR cp) * unat packageSize"
    using h by (simp add: unat_word_ariths)
  have w2: "unat (nBlockWeight a + WITNESS_SCALE_FACTOR cp * packageSize)
      = unat (nBlockWeight a) + unat (WITNESS_SCALE_FACTOR cp) * unat packageSize"
    using h w1 by (simp add: unat_word_ariths)
  have w3: "unat (nBlockSigOpsCost a + packageSigOpsCost)
      = unat (nBlockSigOpsCost a) + unat packageSigOpsCost"
    using h by (simp add: unat_word_ariths)
  show "TestPackage cp a packageSize packageSigOpsCost \<longleftrightarrow>
         unat (nBlockWeight a) + unat (WITNESS_SCALE_FACTOR cp) * unat packageSize
           < unat (nBlockMaxWeight a) \<and>
         unat (nBlockSigOpsCost a) + unat packageSigOpsCost < unat (MAX_BLOCK_SIGOPS_COST cp)"
    unfolding TestPackage_def by (auto simp: word_le_nat_alt w2 w3 not_le)
qed

theorem TestPackage_iff_witness:
  "TestPackage \<lparr>WITNESS_SCALE_FACTOR = 4, MAX_BLOCK_SIGOPS_COST = 80000,
      MAX_BLOCK_WEIGHT = 4000000\<rparr>
     \<lparr>nBlockMaxWeight = 3000000, blockMinFeeRate = 1000, nBlockWeight = 4000, nBlockTx = 0,
      nBlockSigOpsCost = 400, nFees = 0\<rparr> 250 4
   \<and> \<not> TestPackage \<lparr>WITNESS_SCALE_FACTOR = 4, MAX_BLOCK_SIGOPS_COST = 80000,
      MAX_BLOCK_WEIGHT = 4000000\<rparr>
     \<lparr>nBlockMaxWeight = 5000, blockMinFeeRate = 1000, nBlockWeight = 4000, nBlockTx = 0,
      nBlockSigOpsCost = 400, nFees = 0\<rparr> 250 4"
  using TestPackage_iff [of "\<lparr>WITNESS_SCALE_FACTOR = 4, MAX_BLOCK_SIGOPS_COST = 80000,
      MAX_BLOCK_WEIGHT = 4000000\<rparr>"
     "\<lparr>nBlockMaxWeight = 3000000, blockMinFeeRate = 1000, nBlockWeight = 4000, nBlockTx = 0,
      nBlockSigOpsCost = 400, nFees = 0\<rparr>" 250 4]
    TestPackage_iff [of "\<lparr>WITNESS_SCALE_FACTOR = 4, MAX_BLOCK_SIGOPS_COST = 80000,
      MAX_BLOCK_WEIGHT = 4000000\<rparr>"
     "\<lparr>nBlockMaxWeight = 5000, blockMinFeeRate = 1000, nBlockWeight = 4000, nBlockTx = 0,
      nBlockSigOpsCost = 400, nFees = 0\<rparr>" 250 4]
  by simp

subsection \<open>C8: the extra nonce\<close>

lemma sint_Suc_int32:
  fixes x :: "32 word"
  assumes "sint x < 2 ^ 31 - 1"
  shows "sint (x + 1) = sint x + 1"
proof -
  have lower: "- (2 ^ 31) \<le> sint x"
    using sint_ge [of x] by simp
  have "sint (x + 1) = signed_take_bit 31 (sint x + 1)"
    by (simp add: sint_word_ariths)
  also have "\<dots> = sint x + 1"
    using assms lower by (intro signed_take_bit_int_eq_self) auto
  finally show ?thesis .
qed

text \<open>
  Claim C8 says that the counter the miner threads share is reset when the tip changes, so
  that the next reservation starts from 0. The counter is \<open>nNonce_base\<close>, and nothing resets
  it: with the counter at 5 and a template on a new tip, the reservation returns 5 and
  leaves 6; the build has extra nonce 1, and the next build on the same tip reserves 6 and
  has extra nonce 7.
\<close>

theorem extra_nonce_counter_not_reset:
  "reserveExtraNonce exampleScriptSize [] 100 \<lparr>nNonce_base = 5, hashPrevBlock = 1\<rparr> 2
       [Some (exampleCoinbase 50), Some (exampleTx 3 [] [] [])]
     = Inr (\<lparr>nNonce_base = 6, hashPrevBlock = 2\<rparr>, 5, 1,
            [Some ((exampleCoinbase 50)\<lparr>scriptSig0 := [101, 1]\<rparr>), Some (exampleTx 3 [] [] [])])
   \<and> reserveExtraNonce exampleScriptSize [] 100 \<lparr>nNonce_base = 6, hashPrevBlock = 2\<rparr> 2
       [Some (exampleCoinbase 50), Some (exampleTx 3 [] [] [])]
     = Inr (\<lparr>nNonce_base = 7, hashPrevBlock = 2\<rparr>, 6, 7,
            [Some ((exampleCoinbase 50)\<lparr>scriptSig0 := [101, 7]\<rparr>), Some (exampleTx 3 [] [] [])])"
  by (simp add: reserveExtraNonce_def IncrementExtraNonce_def exampleScriptSize_def)

text \<open>
  Claim C8, amended. A reservation returns the value of \<open>nNonce_base\<close> and adds one to it,
  whatever the tip, so that successive reservations increase strictly as long as the
  \<open>int32_t\<close> does not overflow; the counter is never reset. What a change of tip resets is
  the extra nonce of that one build: it is 1 when the \<open>hashPrevBlock\<close> of the template
  differs from the one \<open>IncrementExtraNonce\<close> remembers, and the value reserved plus one
  otherwise. The script of the coinbase pushes the height and this extra nonce; the build
  ends on the assertion if the script is longer than 100 bytes.
\<close>

theorem reserveExtraNonce_result:
  "reserveExtraNonce scriptSig_size F t st h (Some cb # rest)
     = (if scriptSig_size ([t + 1, uint (if hashPrevBlock st \<noteq> h then 1 else nNonce_base st + 1 :: 32 word)]
                   @ F) \<le> 100
        then Inr (\<lparr>nNonce_base = nNonce_base st + 1, hashPrevBlock = h\<rparr>,
                  nNonce_base st,
                  if hashPrevBlock st \<noteq> h then 1 else nNonce_base st + 1,
                  Some (cb\<lparr>scriptSig0 :=
                    [t + 1, uint (if hashPrevBlock st \<noteq> h then 1 else nNonce_base st + 1 :: 32 word)]
                      @ F\<rparr>) # rest)
        else Inl AssertionFailed)
   \<and> (\<forall>r. reserveExtraNonce scriptSig_size F t st h vtx' = Inr r \<longrightarrow>
          fst (snd r) = nNonce_base st
          \<and> nNonce_base (fst r) = nNonce_base st + 1
          \<and> (sint (nNonce_base st) < 2 ^ 31 - 1 \<longrightarrow>
                sint (nNonce_base (fst r)) = sint (nNonce_base st) + 1))"
proof (intro conjI allI impI)
  show "reserveExtraNonce scriptSig_size F t st h (Some cb # rest)
     = (if scriptSig_size ([t + 1, uint (if hashPrevBlock st \<noteq> h then 1 else nNonce_base st + 1 :: 32 word)]
                   @ F) \<le> 100
        then Inr (\<lparr>nNonce_base = nNonce_base st + 1, hashPrevBlock = h\<rparr>,
                  nNonce_base st,
                  if hashPrevBlock st \<noteq> h then 1 else nNonce_base st + 1,
                  Some (cb\<lparr>scriptSig0 :=
                    [t + 1, uint (if hashPrevBlock st \<noteq> h then 1 else nNonce_base st + 1 :: 32 word)]
                      @ F\<rparr>) # rest)
        else Inl AssertionFailed)"
    by (cases st) (simp add: reserveExtraNonce_def IncrementExtraNonce_def Let_def)
next
  fix r
  assume r: "reserveExtraNonce scriptSig_size F t st h vtx' = Inr r"
  then have c: "nNonce_base (fst r) = nNonce_base st + 1" and v: "fst (snd r) = nNonce_base st"
    by (cases st; auto simp add: reserveExtraNonce_def IncrementExtraNonce_def Let_def
          split: list.splits option.splits if_splits sum.splits prod.splits)+
  show "fst (snd r) = nNonce_base st" by (rule v)
  show "nNonce_base (fst r) = nNonce_base st + 1" by (rule c)
  assume "sint (nNonce_base st) < 2 ^ 31 - 1"
  then show "sint (nNonce_base (fst r)) = sint (nNonce_base st) + 1"
    unfolding c by (rule sint_Suc_int32)
qed

theorem reserveExtraNonce_result_witness:
  "reserveExtraNonce exampleScriptSize [7] 100 \<lparr>nNonce_base = 5, hashPrevBlock = 1\<rparr> 2
       [Some (exampleCoinbase 50)]
     = Inr (\<lparr>nNonce_base = 6, hashPrevBlock = 2\<rparr>, 5, 1,
            [Some ((exampleCoinbase 50)\<lparr>scriptSig0 := [101, 1, 7]\<rparr>)])
   \<and> sint (5 :: 32 word) < 2 ^ 31 - 1
   \<and> sint (nNonce_base (fst (\<lparr>nNonce_base = 6 :: 32 word, hashPrevBlock = 2 :: nat\<rparr>,
          5 :: 32 word, 1 :: 32 word,
          [Some ((exampleCoinbase 50)\<lparr>scriptSig0 := [101, 1, 7]\<rparr>)]))) = 6"
proof -
  have run: "reserveExtraNonce exampleScriptSize [7] 100 \<lparr>nNonce_base = 5, hashPrevBlock = 1\<rparr> 2
       [Some (exampleCoinbase 50)]
     = Inr (\<lparr>nNonce_base = 6, hashPrevBlock = 2\<rparr>, 5, 1,
            [Some ((exampleCoinbase 50)\<lparr>scriptSig0 := [101, 1, 7]\<rparr>)])"
    by (simp add: reserveExtraNonce_def IncrementExtraNonce_def exampleScriptSize_def)
  have small: "sint (5 :: 32 word) < 2 ^ 31 - 1"
    by simp
  from reserveExtraNonce_result [of exampleScriptSize "[7]" 100
      "\<lparr>nNonce_base = 5, hashPrevBlock = 1\<rparr>" 2 "exampleCoinbase 50" "[]"
      "[Some (exampleCoinbase 50)]"] run small
  show ?thesis by simp
qed

subsection \<open>C9: the wait for the wallet\<close>

text \<open>
  Claim C9 has the staking thread sleep 2.5 seconds and test the condition again, until
  it clears, before it builds a template. The loop of the source ends its body with
  \<open>break\<close>: with the wallet locked, not unlocked for staking only, and mintable coins
  known, the thread sleeps once and goes on to the template with the wallet still locked.
\<close>

theorem waitForWallet_locked_proceeds:
  "waitForWallet
     \<lparr>IsLocked = True, IsUnlockedForStakingOnly = False, MintableCoins = True, GetTime = 1000,
      GetAdjustedTime = 1000, nTimeLastBlock = 900, MAX_PAST_BLOCK_TIME = 900\<rparr>
     \<lparr>fMintableCoins = True, nMintableLastCheck = 990\<rparr>
   = (\<lparr>fMintableCoins = True, nMintableLastCheck = 990\<rparr>, [2500], Proceed)"
  by code_simp

theorem waitForWallet_locked_proceeds_witness:
  "IsLocked \<lparr>IsLocked = True, IsUnlockedForStakingOnly = False, MintableCoins = True,
      GetTime = 1000, GetAdjustedTime = 1000, nTimeLastBlock = 900, MAX_PAST_BLOCK_TIME = 900\<rparr>
   \<and> snd (snd (waitForWallet
     \<lparr>IsLocked = True, IsUnlockedForStakingOnly = False, MintableCoins = True, GetTime = 1000,
      GetAdjustedTime = 1000, nTimeLastBlock = 900, MAX_PAST_BLOCK_TIME = 900\<rparr>
     \<lparr>fMintableCoins = True, nMintableLastCheck = 990\<rparr>)) = Proceed"
  using waitForWallet_locked_proceeds by simp

subsection \<open>C6: a package that fails the finality test\<close>

text \<open>
  Claim C6 has the failure counter incremented when the finality test fails. With C, which
  is not final, next in the index of the pool and the counter at 7, the step of the loop
  moves the cursor on and leaves the counter at 7.
\<close>

theorem finality_failure_counter_unchanged:
  "step (exampleChain [] [] [3] (50, 0, 0, 0)) examplePool exampleLoopState
     = Continue (exampleLoopState\<lparr>mi := []\<rparr>)
   \<and> nConsecutiveFailed (exampleLoopState\<lparr>mi := []\<rparr>) = 7"
  by code_simp

text \<open>
  Claim C6, amended. When the candidate passes the fit test and its package fails the
  finality or witness test, the loop goes on with the next iteration: a candidate of the
  modified index is erased there and recorded in \<open>failedTx\<close>, a candidate of the index of
  the pool is only passed by; the failure counter and the block are left as they are, and
  the loop does not end on this path.
\<close>

theorem finality_failure_step:
  assumes "\<not> (mi s = [] \<and> mapModifiedTx s = [])"
    and "\<not> (mi s \<noteq> [] \<and> SkipMapTxEntry (asm s) (hd (mi s)) (mapModifiedTx s) (failedTx s))"
    and "selectCandidate pool (mi s) (mapModifiedTx s) = Some (it, fUsingModified, mi')"
    and "it \<notin> set (inBlock (asm s))"
    and "TestPackage (consensus ch) (asm s)
           (if fUsingModified then nSizeWithAncestors (hd (mapModifiedTx s))
            else GetSizeWithAncestors (mapTx pool it))
           (if fUsingModified then nSigOpCostWithAncestors (hd (mapModifiedTx s))
            else GetSigOpCostWithAncestors (mapTx pool it))"
    and "\<not> TestPackageTransactions ch pool (asm s)
           (insertEntry it
              (onlyUnconfirmed (asm s) (mkSetEntries (CalculateMemPoolAncestors pool it))))"
  shows "step ch pool s =
           Continue (if fUsingModified
                     then s\<lparr>mi := mi', mapModifiedTx := tl (mapModifiedTx s),
                            failedTx := insertEntry it (failedTx s)\<rparr>
                     else s\<lparr>mi := mi'\<rparr>)
         \<and> (\<exists>s'. step ch pool s = Continue s'
                \<and> nConsecutiveFailed s' = nConsecutiveFailed s \<and> asm s' = asm s
                \<and> addPackageTxs_loop (Suc fuel) ch pool s = addPackageTxs_loop fuel ch pool s')"
  using assms
  by (auto simp add: step_def evaluatePackage_def failCandidate_def Let_def)

theorem finality_failure_step_witness:
  "step (exampleChain [] [] [3] (50, 0, 0, 0)) examplePool exampleLoopStateModified
     = Continue (exampleLoopStateModified\<lparr>mi := [], mapModifiedTx := [], failedTx := [3]\<rparr>)"
proof -
  let ?ch = "exampleChain [] [] [3] (50, 0, 0, 0)"
  let ?s = exampleLoopStateModified
  have h1: "\<not> (mi ?s = [] \<and> mapModifiedTx ?s = [])"
    by code_simp
  have h2: "\<not> (mi ?s \<noteq> [] \<and> SkipMapTxEntry (asm ?s) (hd (mi ?s)) (mapModifiedTx ?s) (failedTx ?s))"
    by code_simp
  have h3: "selectCandidate examplePool (mi ?s) (mapModifiedTx ?s) = Some (3, True, [])"
    by code_simp
  have h4: "3 \<notin> set (inBlock (asm ?s))"
    by code_simp
  have h5: "TestPackage (consensus ?ch) (asm ?s)
           (if True then nSizeWithAncestors (hd (mapModifiedTx ?s))
            else GetSizeWithAncestors (mapTx examplePool 3))
           (if True then nSigOpCostWithAncestors (hd (mapModifiedTx ?s))
            else GetSigOpCostWithAncestors (mapTx examplePool 3))"
    by code_simp
  have h6: "\<not> TestPackageTransactions ?ch examplePool (asm ?s)
           (insertEntry 3
              (onlyUnconfirmed (asm ?s) (mkSetEntries (CalculateMemPoolAncestors examplePool 3))))"
    by code_simp
  have e1: "tl (mapModifiedTx ?s) = []"
    by code_simp
  have e2: "insertEntry 3 (failedTx ?s) = [3]"
    by code_simp
  from finality_failure_step [OF h1 h2 h3 h4 h5 h6] show ?thesis
    by (simp add: e1 e2)
qed

subsection \<open>C2: the outputs of the coinbase\<close>

lemma andThen_Inr: "andThen r f = Inr y \<longleftrightarrow> (\<exists>x. r = Inr x \<and> f x = Inr y)"
  by (cases r) (auto simp: andThen_def)

lemma coinbase_vpout_schema:
  "coinbase_vpout ch script pos br fp lp bp nr v = Inr outs
   \<Longrightarrow> outs = map Some (spec_coinbase_outputs ch script pos (br, fp, lp, bp) nr)"
  by (auto simp add: coinbase_vpout_def spec_coinbase_outputs_def andThen_def assign_def
       MAKE_OUTPUT_CTxOutStandard_def Let_def eval_nat_numeral
       split: if_splits sum.splits)

lemma coinbase_vpout_total:
  "0 \<le> bp \<Longrightarrow> 0 \<le> fp \<Longrightarrow> coinbase_vpout ch script pos br fp lp bp nr v
    = Inr (map Some (spec_coinbase_outputs ch script pos (br, fp, lp, bp) nr))"
  by (auto simp add: coinbase_vpout_def spec_coinbase_outputs_def andThen_def assign_def
       MAKE_OUTPUT_CTxOutStandard_def Let_def eval_nat_numeral
       split: if_splits sum.splits)

lemma MakeTransactionRef_coinbase_vpout:
  "MakeTransactionRef_coinbase ch sig (map Some xs) = Inr cb \<Longrightarrow> vpout cb = xs"
  by (auto simp: MakeTransactionRef_coinbase_def comp_def split: if_splits)

lemma list_update_0: "xs \<noteq> [] \<Longrightarrow> xs[0 := y] = y # tl xs"
  by (cases xs) auto

text \<open>What a template of \<open>finishBlock\<close> consists of.\<close>

lemma finishBlock_template:
  assumes "finishBlock ch w v script pos stake a = (rm, Inr tmpl)"
  shows "\<exists>outs cb vtx1.
     coinbase_vpout ch script pos (fst (GetBlockRewards ch (nHeight a)))
         (fst (snd (GetBlockRewards ch (nHeight a))))
         (fst (snd (snd (GetBlockRewards ch (nHeight a)))))
         (snd (snd (snd (GetBlockRewards ch (nHeight a))))) (nNetworkReward ch a) v = Inr outs
     \<and> MakeTransactionRef_coinbase ch [nHeight a, 0] outs = Inr cb
     \<and> vtx1 = (if pos then (fst (rebuild ch (setDuplicate (screening ch a)) (vtx a))
                   @ replicate (2 - length (fst (rebuild ch (setDuplicate (screening ch a)) (vtx a)))) None)
                      [1 := Some stake]
                else fst (rebuild ch (setDuplicate (screening ch a)) (vtx a)))
     \<and> vtx1 \<noteq> []
     \<and> block_vtx tmpl = Some cb # tl vtx1
     \<and> rm = snd (rebuild ch (setDuplicate (screening ch a)) (vtx a))
     \<and> block_fProofOfStake tmpl = pos
     \<and> TestBlockValidity ch (block_vtx tmpl)"
proof -
  obtain br fp lp bp where r: "GetBlockRewards ch (nHeight a) = (br, fp, lp, bp)"
    by (cases "GetBlockRewards ch (nHeight a)") auto
  obtain vr rmd where rb: "rebuild ch (setDuplicate (screening ch a)) (vtx a) = (vr, rmd)"
    by (cases "rebuild ch (setDuplicate (screening ch a)) (vtx a)") auto
  from assms have rm: "rm = rmd"
    unfolding finishBlock_def r rb by simp
  from assms obtain outs cb where
    o: "coinbase_vpout ch script pos br fp lp bp (nNetworkReward ch a) v = Inr outs"
    and c: "MakeTransactionRef_coinbase ch [nHeight a, 0] outs = Inr cb"
    and t: "(let vtx1 = (if pos then (vr @ replicate (2 - length vr) None)[1 := Some stake]
                         else vr);
                 vtx2 = vtx1[0 := Some cb];
                 tmpl = \<lparr>block_vtx = vtx2, block_fProofOfStake = pos,
                         template_vTxFees = (vTxFees a)[0 := - nFees a]\<rparr>
             in if vtx1 = [] then Inl OutOfRange
                else if pos \<and> \<not> IsZerocoinSpend stake then Inl StakeNotZerocoinSpend
                else if pos \<and> \<not> TxInToZerocoinSpend ch stake then Inl SpendUnreadable
                else if pos \<and> \<not> (case w of Some w \<Rightarrow> GetZerocoinKey w | None \<Rightarrow> False)
                then Inl KeyMissing
                else if pos \<and> \<not> (case w of Some w \<Rightarrow> Sign w | None \<Rightarrow> False)
                then Inl SignFailed
                else if \<not> TestBlockValidity ch vtx2 then Inl TemplateInvalid
                else Inr tmpl) = Inr tmpl"
    unfolding finishBlock_def r rb by (auto simp: andThen_Inr)
  from t have "(if pos then (vr @ replicate (2 - length vr) None)[1 := Some stake] else vr) \<noteq> []
      \<and> block_vtx tmpl
          = Some cb # tl (if pos then (vr @ replicate (2 - length vr) None)[1 := Some stake] else vr)
      \<and> block_fProofOfStake tmpl = pos
      \<and> TestBlockValidity ch (block_vtx tmpl)"
    by (auto simp: Let_def list_update_0 split: if_splits)
  with o c rm show ?thesis
    by (auto simp add: r rb)
qed



subsection \<open>The screening loops\<close>

lemma scanSerials_mono: "scanSerials ch h xs S = (r, S') \<Longrightarrow> S \<subseteq> S'"
  by (induction xs arbitrary: S) (auto split: if_splits)

lemma scanSerials_False:
  "scanSerials ch h xs S = (False, S') \<Longrightarrow>
     S' = S \<union> set xs \<and> set xs \<inter> S = {} \<and> (\<forall>x\<in>set xs. \<not> IsSerialInBlockchain ch x h)"
  by (induction xs arbitrary: S) (auto split: if_splits)

lemma scanPubcoins_mono: "scanPubcoins ch xs P = (r, P') \<Longrightarrow> P \<subseteq> P'"
  by (induction xs arbitrary: P) (auto split: if_splits)

lemma scanPubcoins_False:
  "scanPubcoins ch xs P = (False, P') \<Longrightarrow>
     P' = P \<union> set xs \<and> set xs \<inter> P = {} \<and> (\<forall>x\<in>set xs. \<not> IsPubcoinInBlockchain ch x)"
  by (induction xs arbitrary: P) (auto split: if_splits)

lemma add_int64_eq: "0 \<le> a + b \<Longrightarrow> a + b < 2 ^ 63 \<Longrightarrow> add_int64 a b = a + b"
  by (simp add: add_int64_def signed_take_bit_int_eq_self)

lemma rewardOutputs_nonneg:
  "\<forall>pout\<in>set (vpout tx). 0 \<le> nValue pout \<Longrightarrow> 0 \<le> rewardOutputs ch tx"
  by (auto simp: rewardOutputs_def intro!: sum_list_nonneg)

lemma scanOutputs_sum:
  assumes "0 \<le> r" and "\<forall>pout\<in>set outs. 0 \<le> nValue pout"
    and "r + sum_list (map nValue
       (filter (\<lambda>pout. IsStandardOutput pout \<and> scriptPubKey pout = script) outs)) < 2 ^ 63"
  shows "scanOutputs script outs r = r + sum_list (map nValue
       (filter (\<lambda>pout. IsStandardOutput pout \<and> scriptPubKey pout = script) outs))"
  using assms
proof (induction outs arbitrary: r)
  case Nil
  then show ?case by simp
next
  case (Cons pout outs)
  let ?f = "\<lambda>pout. IsStandardOutput pout \<and> scriptPubKey pout = script"
  have nn: "\<forall>pout\<in>set outs. 0 \<le> nValue pout" and v: "0 \<le> nValue pout"
    using Cons.prems(2) by simp_all
  have rest: "0 \<le> sum_list (map nValue (filter ?f outs))"
    using nn by (auto intro!: sum_list_nonneg)
  show ?case
  proof (cases "?f pout")
    case False
    then show ?thesis
      using Cons.IH [OF Cons.prems(1) nn] Cons.prems(3) by auto
  next
    case True
    have b: "r + nValue pout + sum_list (map nValue (filter ?f outs)) < 2 ^ 63"
      using Cons.prems(3) True by simp
    have a: "add_int64 r (nValue pout) = r + nValue pout"
      using Cons.prems(1) v rest b by (intro add_int64_eq) auto
    have "scanOutputs script outs (r + nValue pout)
        = r + nValue pout + sum_list (map nValue (filter ?f outs))"
      using Cons.prems(1) v nn b by (intro Cons.IH) auto
    then show ?thesis
      using True a by simp
  qed
qed

lemma screenTx_cases:
  obtains (serial) S where "scanSerials ch h (if IsZerocoinSpend ptx then TxToSerialHashSet ptx else []) (setSerials sc) = (True, S)"
      "screenTx ch h ptx sc = sc\<lparr>setSerials := S, setDuplicate := insert (GetHash ptx) (setDuplicate sc)\<rparr>"
  | (pubcoin) S P where "scanSerials ch h (if IsZerocoinSpend ptx then TxToSerialHashSet ptx else []) (setSerials sc) = (False, S)"
      "scanPubcoins ch (if IsZerocoinMint ptx then TxToPubcoinHashSet ptx else []) (setPubcoins sc) = (True, P)"
      "screenTx ch h ptx sc = sc\<lparr>setSerials := S, setPubcoins := P, setDuplicate := insert (GetHash ptx) (setDuplicate sc)\<rparr>"
  | (pass) S P where "scanSerials ch h (if IsZerocoinSpend ptx then TxToSerialHashSet ptx else []) (setSerials sc) = (False, S)"
      "scanPubcoins ch (if IsZerocoinMint ptx then TxToPubcoinHashSet ptx else []) (setPubcoins sc) = (False, P)"
      "screenTx ch h ptx sc = sc\<lparr>setSerials := S, setPubcoins := P,
          nNetworkRewardReserve :=
            scanOutputs (rewardScript ch) (vpout ptx) (nNetworkRewardReserve sc)\<rparr>"
proof -
  obtain r S where s: "scanSerials ch h (if IsZerocoinSpend ptx then TxToSerialHashSet ptx else []) (setSerials sc) = (r, S)"
    by (cases "scanSerials ch h (if IsZerocoinSpend ptx then TxToSerialHashSet ptx else []) (setSerials sc)") auto
  obtain r' P where p: "scanPubcoins ch (if IsZerocoinMint ptx then TxToPubcoinHashSet ptx else []) (setPubcoins sc) = (r', P)"
    by (cases "scanPubcoins ch (if IsZerocoinMint ptx then TxToPubcoinHashSet ptx else []) (setPubcoins sc)") auto
  show thesis
  proof (cases r)
    case True
    with s show ?thesis by (intro serial[of S]) (auto simp: screenTx_def Let_def)
  next
    case False
    note rF = this
    show ?thesis
    proof (cases r')
      case True
      with s p rF show ?thesis by (intro pubcoin[of S P]) (auto simp: screenTx_def Let_def)
    next
      case False
      with s p rF show ?thesis
        by (intro pass[of S P]) (auto simp: screenTx_def Let_def)
    qed
  qed
qed

lemma set_TxToSerialHashSet [simp]: "set (TxToSerialHashSet tx) = set (vSerialHashes tx)"
  by (simp add: TxToSerialHashSet_def)

lemma set_TxToPubcoinHashSet [simp]: "set (TxToPubcoinHashSet tx) = set (vPubcoinHashes tx)"
  by (simp add: TxToPubcoinHashSet_def)

lemma screenTx_mono:
  "setSerials sc \<subseteq> setSerials (screenTx ch h ptx sc)"
  "setPubcoins sc \<subseteq> setPubcoins (screenTx ch h ptx sc)"
  "setDuplicate sc \<subseteq> setDuplicate (screenTx ch h ptx sc)"
  "setDuplicate (screenTx ch h ptx sc) \<subseteq> insert (GetHash ptx) (setDuplicate sc)"
  by (cases rule: screenTx_cases [of ch h ptx sc];
      auto dest: scanSerials_mono scanPubcoins_mono)+

lemma screenTx_pass:
  assumes "GetHash ptx \<notin> setDuplicate (screenTx ch h ptx sc)"
  shows "IsZerocoinSpend ptx \<Longrightarrow> set (vSerialHashes ptx) \<subseteq> setSerials (screenTx ch h ptx sc)"
    and "IsZerocoinSpend ptx \<Longrightarrow> set (vSerialHashes ptx) \<inter> setSerials sc = {}"
    and "IsZerocoinSpend ptx \<Longrightarrow> s \<in> set (vSerialHashes ptx) \<Longrightarrow> \<not> IsSerialInBlockchain ch s h"
    and "IsZerocoinMint ptx \<Longrightarrow> set (vPubcoinHashes ptx) \<subseteq> setPubcoins (screenTx ch h ptx sc)"
    and "IsZerocoinMint ptx \<Longrightarrow> set (vPubcoinHashes ptx) \<inter> setPubcoins sc = {}"
    and "IsZerocoinMint ptx \<Longrightarrow> p \<in> set (vPubcoinHashes ptx) \<Longrightarrow> \<not> IsPubcoinInBlockchain ch p"
    and "nNetworkRewardReserve (screenTx ch h ptx sc)
           = scanOutputs (rewardScript ch) (vpout ptx) (nNetworkRewardReserve sc)"
  using assms
  by (cases rule: screenTx_cases [of ch h ptx sc];
      auto dest!: scanSerials_False scanPubcoins_False)+

lemma screenTx_marked_reserve:
  assumes "GetHash ptx \<in> setDuplicate (screenTx ch h ptx sc)" "GetHash ptx \<notin> setDuplicate sc"
  shows "nNetworkRewardReserve (screenTx ch h ptx sc) = nNetworkRewardReserve sc"
  using assms
  by (cases rule: screenTx_cases [of ch h ptx sc]; auto)

lemma screenTx_serial_hit:
  assumes "IsZerocoinSpend ptx" "s \<in> set (vSerialHashes ptx)" "s \<in> setSerials sc"
  shows "GetHash ptx \<in> setDuplicate (screenTx ch h ptx sc)"
  using assms
  by (cases rule: screenTx_cases [of ch h ptx sc];
      auto dest!: scanSerials_False)

lemma screenTx_pubcoin_hit:
  assumes "IsZerocoinMint ptx" "p \<in> set (vPubcoinHashes ptx)" "p \<in> setPubcoins sc"
  shows "GetHash ptx \<in> setDuplicate (screenTx ch h ptx sc)"
  using assms
  by (cases rule: screenTx_cases [of ch h ptx sc];
      auto dest!: scanPubcoins_False)

lemma screenBlock_append:
  "screenBlock ch h (xs @ ys) sc = screenBlock ch h ys (screenBlock ch h xs sc)"
  by (induction ch h xs sc rule: screenBlock.induct) auto

lemma screenBlock_mono:
  "setSerials sc \<subseteq> setSerials (screenBlock ch h xs sc)"
  "setPubcoins sc \<subseteq> setPubcoins (screenBlock ch h xs sc)"
  "setDuplicate sc \<subseteq> setDuplicate (screenBlock ch h xs sc)"
  by (induction ch h xs sc rule: screenBlock.induct; use screenTx_mono in fastforce)+

lemma screenBlock_dup_upper:
  "setDuplicate (screenBlock ch h xs sc) \<subseteq> setDuplicate sc \<union> GetHash ` set (txsOf xs)"
  by (induction ch h xs sc rule: screenBlock.induct; use screenTx_mono(4) in fastforce)

lemma rebuild_fst: "fst (rebuild ch dup xs) = filter (keptByRebuild ch dup) xs"
  by (induction ch dup xs rule: rebuild.induct) (auto simp: keptByRebuild_def)

lemma rebuild_snd: "snd (rebuild ch dup xs) = filter (\<lambda>tx. GetHash tx \<in> dup) (txsOf xs)"
  by (induction ch dup xs rule: rebuild.induct) auto

lemma Some_in_txsOf [simp]: "tx \<in> set (txsOf xs) \<longleftrightarrow> Some tx \<in> set xs"
  by (induction xs rule: txsOf.induct) auto

lemma filter_eq_append_iff:
  "filter P xs = ys @ zs \<longleftrightarrow> (\<exists>as bs. xs = as @ bs \<and> filter P as = ys \<and> filter P bs = zs)"
proof
  show "filter P xs = ys @ zs \<Longrightarrow> \<exists>as bs. xs = as @ bs \<and> filter P as = ys \<and> filter P bs = zs"
  proof (induction ys arbitrary: xs)
    case Nil
    then show ?case by (intro exI [of _ "[]"] exI [of _ xs]) simp
  next
    case (Cons y ys)
    from Cons.prems obtain us vs where
      xs: "xs = us @ y # vs" "\<forall>u\<in>set us. \<not> P u" "P y" "ys @ zs = filter P vs"
      by (auto simp: filter_eq_Cons_iff)
    from Cons.IH [of vs] xs(4) obtain as bs where
      vs: "vs = as @ bs" "filter P as = ys" "filter P bs = zs"
      by auto
    have "xs = (us @ y # as) @ bs" "filter P (us @ y # as) = y # ys"
      using xs vs by auto
    with vs(3) show ?case by blast
  qed
qed auto

lemma filter_two_decomp:
  assumes "filter P xs = as @ x # bs @ y # cs"
  shows "\<exists>as' bs' cs'. xs = as' @ x # bs' @ y # cs' \<and> P x \<and> P y"
proof -
  from assms obtain u v where 1: "xs = u @ v" "filter P u = as" "filter P v = x # bs @ y # cs"
    by (auto simp: filter_eq_append_iff)
  from 1(3) obtain u1 v1 where 2: "v = u1 @ x # v1" "P x" "filter P v1 = bs @ y # cs"
    by (auto simp: filter_eq_Cons_iff)
  from 2(3) obtain u2 v2 where 3: "v1 = u2 @ v2" "filter P v2 = y # cs"
    by (auto simp: filter_eq_append_iff)
  from 3(2) obtain u3 v3 where 4: "v2 = u3 @ y # v3" "P y"
    by (auto simp: filter_eq_Cons_iff)
  have "xs = (u @ u1) @ x # (u2 @ u3) @ y # v3"
    using 1 2 3 4 by simp
  with 2 4 show ?thesis by blast
qed

lemma drop_two_decomp:
  assumes "drop n xs = as @ x # bs @ y # cs"
  shows "xs = (take n xs @ as) @ x # bs @ y # cs"
  using assms by (metis append_assoc append_take_drop_id)

text \<open>The screening of a list in which \<open>X\<close> comes before \<open>Y\<close>.\<close>

lemma screen_not_marked_passes:
  assumes "GetHash X \<notin> setDuplicate (screenBlock ch h (as @ Some X # rest) sc0)"
  shows "GetHash X \<notin> setDuplicate (screenTx ch h X (screenBlock ch h as sc0))"
  using assms screenBlock_mono(3) [of "screenTx ch h X (screenBlock ch h as sc0)" ch h rest]
  by (auto simp: screenBlock_append)

lemma screen_later_serial:
  assumes "s \<in> setSerials (screenTx ch h X (screenBlock ch h as sc0))"
    and "IsZerocoinSpend Y" "s \<in> set (vSerialHashes Y)"
  shows "GetHash Y \<in> setDuplicate (screenBlock ch h (as @ Some X # bs @ Some Y # cs) sc0)"
proof -
  let ?scX = "screenTx ch h X (screenBlock ch h as sc0)"
  let ?scY = "screenBlock ch h bs ?scX"
  have "s \<in> setSerials ?scY"
    using assms(1) screenBlock_mono(1) [of ?scX ch h bs] by auto
  then have "GetHash Y \<in> setDuplicate (screenTx ch h Y ?scY)"
    using assms(2,3) by (rule screenTx_serial_hit [rotated 2])
  then show ?thesis
    using screenBlock_mono(3) [of "screenTx ch h Y ?scY" ch h cs]
    by (auto simp: screenBlock_append)
qed

lemma screen_later_pubcoin:
  assumes "p \<in> setPubcoins (screenTx ch h X (screenBlock ch h as sc0))"
    and "IsZerocoinMint Y" "p \<in> set (vPubcoinHashes Y)"
  shows "GetHash Y \<in> setDuplicate (screenBlock ch h (as @ Some X # bs @ Some Y # cs) sc0)"
proof -
  let ?scX = "screenTx ch h X (screenBlock ch h as sc0)"
  let ?scY = "screenBlock ch h bs ?scX"
  have "p \<in> setPubcoins ?scY"
    using assms(1) screenBlock_mono(2) [of ?scX ch h bs] by auto
  then have "GetHash Y \<in> setDuplicate (screenTx ch h Y ?scY)"
    using assms(2,3) by (rule screenTx_pubcoin_hit [rotated 2])
  then show ?thesis
    using screenBlock_mono(3) [of "screenTx ch h Y ?scY" ch h cs]
    by (auto simp: screenBlock_append)
qed

lemma screen_kept_disjoint_serials:
  assumes "GetHash X \<notin> setDuplicate (screenBlock ch h (as @ Some X # bs @ Some Y # cs) sc0)"
    and "GetHash Y \<notin> setDuplicate (screenBlock ch h (as @ Some X # bs @ Some Y # cs) sc0)"
    and "IsZerocoinSpend X" "IsZerocoinSpend Y"
  shows "set (vSerialHashes X) \<inter> set (vSerialHashes Y) = {}"
proof (rule ccontr)
  assume "set (vSerialHashes X) \<inter> set (vSerialHashes Y) \<noteq> {}"
  then obtain s where s: "s \<in> set (vSerialHashes X)" "s \<in> set (vSerialHashes Y)" by auto
  have "GetHash X \<notin> setDuplicate (screenTx ch h X (screenBlock ch h as sc0))"
    using assms(1) by (rule screen_not_marked_passes)
  then have "s \<in> setSerials (screenTx ch h X (screenBlock ch h as sc0))"
    using screenTx_pass(1) [of X ch h "screenBlock ch h as sc0"] assms(3) s(1) by auto
  then have "GetHash Y \<in> setDuplicate (screenBlock ch h (as @ Some X # bs @ Some Y # cs) sc0)"
    using assms(4) s(2) by (rule screen_later_serial)
  with assms(2) show False by simp
qed

lemma screen_kept_disjoint_pubcoins:
  assumes "GetHash X \<notin> setDuplicate (screenBlock ch h (as @ Some X # bs @ Some Y # cs) sc0)"
    and "GetHash Y \<notin> setDuplicate (screenBlock ch h (as @ Some X # bs @ Some Y # cs) sc0)"
    and "IsZerocoinMint X" "IsZerocoinMint Y"
  shows "set (vPubcoinHashes X) \<inter> set (vPubcoinHashes Y) = {}"
proof (rule ccontr)
  assume "set (vPubcoinHashes X) \<inter> set (vPubcoinHashes Y) \<noteq> {}"
  then obtain s where s: "s \<in> set (vPubcoinHashes X)" "s \<in> set (vPubcoinHashes Y)" by auto
  have "GetHash X \<notin> setDuplicate (screenTx ch h X (screenBlock ch h as sc0))"
    using assms(1) by (rule screen_not_marked_passes)
  then have "s \<in> setPubcoins (screenTx ch h X (screenBlock ch h as sc0))"
    using screenTx_pass(4) [of X ch h "screenBlock ch h as sc0"] assms(3) s(1) by auto
  then have "GetHash Y \<in> setDuplicate (screenBlock ch h (as @ Some X # bs @ Some Y # cs) sc0)"
    using assms(4) s(2) by (rule screen_later_pubcoin)
  with assms(2) show False by simp
qed

lemma screen_kept_not_in_chain:
  assumes "Some X \<in> set xs" "GetHash X \<notin> setDuplicate (screenBlock ch h xs sc0)"
  shows "IsZerocoinSpend X \<Longrightarrow> s \<in> set (vSerialHashes X) \<Longrightarrow> \<not> IsSerialInBlockchain ch s h"
    and "IsZerocoinMint X \<Longrightarrow> p \<in> set (vPubcoinHashes X) \<Longrightarrow> \<not> IsPubcoinInBlockchain ch p"
proof -
  from assms(1) obtain as rest where xs: "xs = as @ Some X # rest"
    by (auto simp: in_set_conv_decomp)
  have np: "GetHash X \<notin> setDuplicate (screenTx ch h X (screenBlock ch h as sc0))"
    using assms(2) unfolding xs by (rule screen_not_marked_passes)
  show "IsZerocoinSpend X \<Longrightarrow> s \<in> set (vSerialHashes X) \<Longrightarrow> \<not> IsSerialInBlockchain ch s h"
    using screenTx_pass(3) [OF np] by blast
  show "IsZerocoinMint X \<Longrightarrow> p \<in> set (vPubcoinHashes X) \<Longrightarrow> \<not> IsPubcoinInBlockchain ch p"
    using screenTx_pass(6) [OF np] by blast
qed

lemma poolPart_finishBlock:
  assumes "finishBlock ch w v script pos stake a = (rm, Inr tmpl)"
  shows "poolPart tmpl = drop (if pos then 2 else 1) (fst (rebuild ch (setDuplicate (screening ch a)) (vtx a)))"
proof -
  let ?vr = "fst (rebuild ch (setDuplicate (screening ch a)) (vtx a))"
  from finishBlock_template [OF assms] obtain cb vtx1 where
    v: "vtx1 = (if pos then (?vr @ replicate (2 - length ?vr) None) [1 := Some stake] else ?vr)"
    and b: "block_vtx tmpl = Some cb # tl vtx1" and p: "block_fProofOfStake tmpl = pos"
    by auto
  show ?thesis
  proof (cases pos)
    case False
    then show ?thesis using v b p by (simp add: poolPart_def drop_Suc)
  next
    case True
    have "drop 2 ((?vr @ replicate (2 - length ?vr) None) [1 := Some stake]) = drop 2 ?vr"
      by (simp add: drop_update_cancel)
    then show ?thesis using True v b p
      by (simp add: poolPart_def drop_Suc numeral_2_eq_2 drop_tl)
  qed
qed

lemma poolPart_origin:
  assumes fb: "finishBlock ch w v script pos stake a = (rm, Inr tmpl)"
    and pp: "poolPart tmpl = as @ Some X # bs @ Some Y # cs"
  shows "\<exists>as' bs' cs'. vtx a = as' @ Some X # bs' @ Some Y # cs'
           \<and> GetHash X \<notin> setDuplicate (screening ch a)
           \<and> GetHash Y \<notin> setDuplicate (screening ch a)"
proof -
  let ?dup = "setDuplicate (screening ch a)"
  let ?n = "if pos then 2 else 1 :: nat"
  have "drop ?n (filter (keptByRebuild ch ?dup) (vtx a)) = as @ Some X # bs @ Some Y # cs"
    using poolPart_finishBlock [OF fb] pp by (simp add: rebuild_fst)
  then have "filter (keptByRebuild ch ?dup) (vtx a)
      = (take ?n (filter (keptByRebuild ch ?dup) (vtx a)) @ as) @ Some X # bs @ Some Y # cs"
    by (rule drop_two_decomp)
  from filter_two_decomp [OF this] show ?thesis
    by (auto simp: keptByRebuild_def)
qed

lemma poolPart_member:
  assumes fb: "finishBlock ch w v script pos stake a = (rm, Inr tmpl)"
    and pp: "Some X \<in> set (poolPart tmpl)"
  shows "Some X \<in> set (vtx a) \<and> GetHash X \<notin> setDuplicate (screening ch a)"
proof -
  have "Some X \<in> set (filter (keptByRebuild ch (setDuplicate (screening ch a))) (vtx a))"
    using poolPart_finishBlock [OF fb] pp by (auto simp: rebuild_fst dest: in_set_dropD)
  then show ?thesis by (auto simp: keptByRebuild_def)
qed

subsection \<open>C3: what the screening guarantees\<close>

text \<open>
  Claim C3, amended. \<open>finishBlock\<close> is \<open>CreateNewBlock\<close> from the screening on, so its
  templates are the templates returned. In every template, among the transactions that
  come from the pool (all but the coinbase and, in a proof-of-stake template, the
  coinstake, which is installed after the screening), no two spends share a serial hash and
  no two mints share a pubcoin hash; none has a serial hash that \<open>IsSerialInBlockchain\<close>
  reports at the height of the template or a pubcoin hash that \<open>IsPubcoinInBlockchain\<close>
  reports; every transaction marked duplicate is left out of the block and handed to
  \<open>mempool.removeRecursive\<close>; and of two transactions of the block that spend the same
  serial, if the first is not itself marked duplicate, then it is kept by the screening and
  the second is marked duplicate and removed.
\<close>

theorem screening_invariants:
  assumes fb: "finishBlock ch w v script pos stake a = (rm, Inr tmpl)"
  shows "(\<forall>as X bs Y cs. poolPart tmpl = as @ Some X # bs @ Some Y # cs \<longrightarrow>
            (IsZerocoinSpend X \<and> IsZerocoinSpend Y \<longrightarrow>
               set (vSerialHashes X) \<inter> set (vSerialHashes Y) = {})
          \<and> (IsZerocoinMint X \<and> IsZerocoinMint Y \<longrightarrow>
               set (vPubcoinHashes X) \<inter> set (vPubcoinHashes Y) = {}))
       \<and> (\<forall>X. Some X \<in> set (poolPart tmpl) \<longrightarrow>
            (IsZerocoinSpend X \<longrightarrow>
               (\<forall>s\<in>set (vSerialHashes X). \<not> IsSerialInBlockchain ch s (nHeight a)))
          \<and> (IsZerocoinMint X \<longrightarrow>
               (\<forall>p\<in>set (vPubcoinHashes X). \<not> IsPubcoinInBlockchain ch p)))
       \<and> (\<forall>X. Some X \<in> set (vtx a) \<and> GetHash X \<in> setDuplicate (screening ch a) \<longrightarrow>
            Some X \<notin> set (poolPart tmpl) \<and> X \<in> set rm)
       \<and> (\<forall>as X bs Y cs s. vtx a = as @ Some X # bs @ Some Y # cs
            \<and> IsZerocoinSpend X \<and> IsZerocoinSpend Y
            \<and> s \<in> set (vSerialHashes X) \<and> s \<in> set (vSerialHashes Y)
            \<and> GetHash X \<notin> setDuplicate (screening ch a) \<longrightarrow>
              GetHash Y \<in> setDuplicate (screening ch a) \<and> Y \<in> set rm \<and> X \<notin> set rm
            \<and> Some X \<in> set (fst (rebuild ch (setDuplicate (screening ch a)) (vtx a))))"
proof (intro conjI allI impI ballI)
  fix as X bs Y cs
  assume pp: "poolPart tmpl = as @ Some X # bs @ Some Y # cs"
  from poolPart_origin [OF fb pp] obtain as' bs' cs' where
    o: "vtx a = as' @ Some X # bs' @ Some Y # cs'"
       "GetHash X \<notin> setDuplicate (screening ch a)" "GetHash Y \<notin> setDuplicate (screening ch a)"
    by blast
  show "set (vSerialHashes X) \<inter> set (vSerialHashes Y) = {}"
    if "IsZerocoinSpend X \<and> IsZerocoinSpend Y"
    using o that unfolding screening_def by (auto dest: screen_kept_disjoint_serials)
  show "set (vPubcoinHashes X) \<inter> set (vPubcoinHashes Y) = {}"
    if "IsZerocoinMint X \<and> IsZerocoinMint Y"
    using o that unfolding screening_def by (auto dest: screen_kept_disjoint_pubcoins)
next
  fix X s
  assume "Some X \<in> set (poolPart tmpl)" "IsZerocoinSpend X" "s \<in> set (vSerialHashes X)"
  with poolPart_member [OF fb] show "\<not> IsSerialInBlockchain ch s (nHeight a)"
    unfolding screening_def using screen_kept_not_in_chain(1) by blast
next
  fix X p
  assume "Some X \<in> set (poolPart tmpl)" "IsZerocoinMint X" "p \<in> set (vPubcoinHashes X)"
  with poolPart_member [OF fb] show "\<not> IsPubcoinInBlockchain ch p"
    unfolding screening_def using screen_kept_not_in_chain(2) by blast
next
  fix X
  assume "Some X \<in> set (vtx a) \<and> GetHash X \<in> setDuplicate (screening ch a)"
  then show "Some X \<notin> set (poolPart tmpl)"
    using poolPart_member [OF fb] by blast
next
  fix X
  assume "Some X \<in> set (vtx a) \<and> GetHash X \<in> setDuplicate (screening ch a)"
  then show "X \<in> set rm"
    using finishBlock_template [OF fb] by (auto simp: rebuild_snd)
next
  fix as X bs Y cs s
  assume h: "vtx a = as @ Some X # bs @ Some Y # cs
            \<and> IsZerocoinSpend X \<and> IsZerocoinSpend Y
            \<and> s \<in> set (vSerialHashes X) \<and> s \<in> set (vSerialHashes Y)
            \<and> GetHash X \<notin> setDuplicate (screening ch a)"
  let ?sc0 = "\<lparr>setSerials = {}, setPubcoins = {}, setDuplicate = {},
        nNetworkRewardReserve = prevNetworkRewardReserve ch\<rparr>"
  have np: "GetHash X \<notin> setDuplicate (screenTx ch (nHeight a) X (screenBlock ch (nHeight a) as ?sc0))"
    using h unfolding screening_def by (auto dest: screen_not_marked_passes)
  then have "s \<in> setSerials (screenTx ch (nHeight a) X (screenBlock ch (nHeight a) as ?sc0))"
    using screenTx_pass(1) [OF np] h by auto
  then show y: "GetHash Y \<in> setDuplicate (screening ch a)"
    using h unfolding screening_def by (auto intro: screen_later_serial)
  show "Y \<in> set rm"
    using finishBlock_template [OF fb] y h by (auto simp: rebuild_snd)
  show "X \<notin> set rm"
    using finishBlock_template [OF fb] h by (auto simp: rebuild_snd)
  show "Some X \<in> set (fst (rebuild ch (setDuplicate (screening ch a)) (vtx a)))"
    using h by (auto simp: rebuild_fst keptByRebuild_def)
qed

theorem screening_invariants_witness:
  "finishBlock (exampleChain [] [] [] (50, 0, 0, 0)) None 0 [8] False (exampleTx 0 [] [] [])
     (exampleBlock [exampleTx 21 [5] [] [], exampleTx 22 [5] [] [], exampleTx 23 [6] [] []])
   = ([exampleTx 22 [5] [] []],
      Inr (exampleTemplate 55 [exampleTx 21 [5] [] [], exampleTx 23 [6] [] []]))
   \<and> set (vSerialHashes (exampleTx 21 [5] [] [])) \<inter> set (vSerialHashes (exampleTx 23 [6] [] [])) = {}
   \<and> GetHash (exampleTx 22 [5] [] [])
       \<in> setDuplicate (screening (exampleChain [] [] [] (50, 0, 0, 0))
            (exampleBlock [exampleTx 21 [5] [] [], exampleTx 22 [5] [] [], exampleTx 23 [6] [] []]))"
proof -
  let ?ch = "exampleChain [] [] [] (50, 0, 0, 0)"
  let ?X = "exampleTx 21 [5] [] []" and ?Y = "exampleTx 22 [5] [] []" and ?Z = "exampleTx 23 [6] [] []"
  let ?a = "exampleBlock [?X, ?Y, ?Z]"
  let ?T = "exampleTemplate 55 [?X, ?Z]"
  have ev: "finishBlock ?ch None 0 [8] False (exampleTx 0 [] [] []) ?a = ([?Y], Inr ?T)"
    by code_simp
  have pp: "poolPart ?T = [] @ Some ?X # [] @ Some ?Z # []"
    by code_simp
  have va: "vtx ?a = [None] @ Some ?X # [] @ Some ?Y # [Some ?Z]"
    by code_simp
  have nx: "GetHash ?X \<notin> setDuplicate (screening ?ch ?a)"
    by code_simp
  have sp: "IsZerocoinSpend ?X" "IsZerocoinSpend ?Y" "IsZerocoinSpend ?Z"
    "5 \<in> set (vSerialHashes ?X)" "5 \<in> set (vSerialHashes ?Y)"
    by (simp_all add: exampleTx_def)
  note th = screening_invariants [OF ev]
  from th pp sp have 1: "set (vSerialHashes ?X) \<inter> set (vSerialHashes ?Z) = {}"
    by blast
  from th va nx sp have 2: "GetHash ?Y \<in> setDuplicate (screening ?ch ?a)"
    by blast
  from ev 1 2 show ?thesis by blast
qed

text \<open>
  Claim C3 also says that of two pool transactions spending the same serial the one
  selected first stays and the second is removed. Here both spend serial 9 and the first
  also spends serial 3, which is confirmed in the chain: the first is removed at serial 3,
  before serial 9 is recorded, and the second stays.
\<close>

theorem duplicate_serial_first_removed:
  "finishBlock (exampleChain [3] [] [] (50, 0, 0, 0)) None 0 [8] False (exampleTx 0 [] [] [])
     (exampleBlock [exampleTx 11 [3, 9] [] [], exampleTx 12 [9] [] []])
   = ([exampleTx 11 [3, 9] [] []], Inr (exampleTemplate 55 [exampleTx 12 [9] [] []]))"
  by code_simp

subsection \<open>C4: the network reward\<close>

lemma screenBlock_reserve:
  assumes "distinct (map GetHash (txsOf xs))"
    and "\<forall>tx\<in>set (txsOf xs). GetHash tx \<notin> setDuplicate sc"
    and "0 \<le> nNetworkRewardReserve sc"
    and "\<forall>tx\<in>set (txsOf xs). \<forall>pout\<in>set (vpout tx). 0 \<le> nValue pout"
    and "nNetworkRewardReserve sc
       + sum_list (map (rewardOutputs ch)
           (filter (\<lambda>tx. GetHash tx \<notin> setDuplicate (screenBlock ch h xs sc)) (txsOf xs)))
       < 2 ^ 63"
  shows "nNetworkRewardReserve (screenBlock ch h xs sc)
     = nNetworkRewardReserve sc
       + sum_list (map (rewardOutputs ch)
           (filter (\<lambda>tx. GetHash tx \<notin> setDuplicate (screenBlock ch h xs sc)) (txsOf xs)))"
  using assms
proof (induction ch h xs sc rule: screenBlock.induct)
  case (1 ch h sc)
  then show ?case by simp
next
  case (2 ch h rest sc)
  then show ?case by simp
next
  case (3 ch h ptx rest sc)
  let ?sc1 = "screenTx ch h ptx sc"
  let ?fin = "screenBlock ch h rest ?sc1"
  let ?rest = "sum_list (map (rewardOutputs ch)
           (filter (\<lambda>tx. GetHash tx \<notin> setDuplicate ?fin) (txsOf rest)))"
  have d: "distinct (map GetHash (txsOf rest))"
    using "3.prems"(1) by simp
  have nin: "\<forall>tx\<in>set (txsOf rest). GetHash tx \<noteq> GetHash ptx"
    using "3.prems"(1) by (simp del: Some_in_txsOf) (metis imageI)
  have p0: "GetHash ptx \<notin> setDuplicate sc"
    using "3.prems"(2) by (simp del: Some_in_txsOf)
  have p2: "\<forall>tx\<in>set (txsOf rest). GetHash tx \<notin> setDuplicate sc"
    using "3.prems"(2) by (simp del: Some_in_txsOf)
  have nn: "\<forall>tx\<in>set (txsOf rest). \<forall>pout\<in>set (vpout tx). 0 \<le> nValue pout"
    and nnp: "\<forall>pout\<in>set (vpout ptx). 0 \<le> nValue pout"
    using "3.prems"(4) by (simp_all del: Some_in_txsOf)
  have rest0: "0 \<le> ?rest"
  proof (rule sum_list_nonneg)
    fix x assume "x \<in> set (map (rewardOutputs ch)
           (filter (\<lambda>tx. GetHash tx \<notin> setDuplicate ?fin) (txsOf rest)))"
    then obtain tx where "tx \<in> set (txsOf rest)" and "x = rewardOutputs ch tx"
      by (auto simp del: Some_in_txsOf)
    with nn show "0 \<le> x"
      by (simp del: Some_in_txsOf add: rewardOutputs_nonneg)
  qed
  have up: "setDuplicate ?sc1 \<subseteq> insert (GetHash ptx) (setDuplicate sc)"
    by (rule screenTx_mono(4))
  have disj: "\<forall>tx\<in>set (txsOf rest). GetHash tx \<notin> setDuplicate ?sc1"
  proof
    fix tx assume tx: "tx \<in> set (txsOf rest)"
    with nin p2 have "GetHash tx \<noteq> GetHash ptx" "GetHash tx \<notin> setDuplicate sc" by blast+
    with up show "GetHash tx \<notin> setDuplicate ?sc1" by blast
  qed
  have upper: "setDuplicate ?fin \<subseteq> setDuplicate ?sc1 \<union> GetHash ` set (txsOf rest)"
    by (rule screenBlock_dup_upper)
  have lower: "setDuplicate ?sc1 \<subseteq> setDuplicate ?fin"
    by (rule screenBlock_mono(3))
  have fin_iff: "GetHash ptx \<in> setDuplicate ?fin \<longleftrightarrow> GetHash ptx \<in> setDuplicate ?sc1"
  proof
    assume "GetHash ptx \<in> setDuplicate ?fin"
    with upper have "GetHash ptx \<in> setDuplicate ?sc1 \<or> GetHash ptx \<in> GetHash ` set (txsOf rest)"
      by blast
    moreover have "GetHash ptx \<notin> GetHash ` set (txsOf rest)"
      using nin by (metis imageE)
    ultimately show "GetHash ptx \<in> setDuplicate ?sc1" by blast
  next
    assume "GetHash ptx \<in> setDuplicate ?sc1"
    with lower show "GetHash ptx \<in> setDuplicate ?fin" by blast
  qed
  show ?case
  proof (cases "GetHash ptx \<in> setDuplicate ?sc1")
    case True
    have r1: "nNetworkRewardReserve ?sc1 = nNetworkRewardReserve sc"
      by (rule screenTx_marked_reserve [OF True p0])
    have b: "nNetworkRewardReserve ?sc1 + ?rest < 2 ^ 63"
      using "3.prems"(5) True fin_iff r1 by simp
    have "nNetworkRewardReserve ?fin = nNetworkRewardReserve ?sc1 + ?rest"
      using "3.prems"(3) r1 by (intro "3.IH" [OF d disj _ nn b]) simp
    then show ?thesis
      using True fin_iff r1 by simp
  next
    case False
    have tot: "nNetworkRewardReserve sc + rewardOutputs ch ptx + ?rest < 2 ^ 63"
      using "3.prems"(5) False fin_iff by simp
    have "nNetworkRewardReserve ?sc1
        = scanOutputs (rewardScript ch) (vpout ptx) (nNetworkRewardReserve sc)"
      by (rule screenTx_pass(7) [OF False])
    also have "\<dots> = nNetworkRewardReserve sc + rewardOutputs ch ptx"
      unfolding rewardOutputs_def
      using tot rest0 by (intro scanOutputs_sum "3.prems"(3) nnp) (simp add: rewardOutputs_def)
    finally have r1: "nNetworkRewardReserve ?sc1 = nNetworkRewardReserve sc + rewardOutputs ch ptx" .
    have r0: "0 \<le> nNetworkRewardReserve ?sc1"
      using r1 "3.prems"(3) rewardOutputs_nonneg [OF nnp, of ch] by simp
    have b: "nNetworkRewardReserve ?sc1 + ?rest < 2 ^ 63"
      using tot r1 by simp
    have "nNetworkRewardReserve ?fin = nNetworkRewardReserve ?sc1 + ?rest"
      by (rule "3.IH" [OF d disj r0 nn b])
    then show ?thesis
      using False fin_iff r1 by simp
  qed
qed




subsection \<open>C10: the hashes a removed transaction leaves behind\<close>

lemma scanSerials_examined:
  "snd (scanSerials ch h xs S) = S \<union> set (examinedSerials ch h xs S)"
  by (induction xs arbitrary: S) auto

lemma examinedSerials_fresh: "set (examinedSerials ch h xs S) \<inter> S = {}"
proof (induction xs arbitrary: S)
  case Nil
  then show ?case by simp
next
  case (Cons x xs)
  from Cons [of "insert x S"] show ?case by auto
qed

lemma scanPubcoins_examined:
  "snd (scanPubcoins ch xs P) = P \<union> set (examinedPubcoins ch xs P)"
  by (induction xs arbitrary: P) auto

lemma examinedPubcoins_fresh: "set (examinedPubcoins ch xs P) \<inter> P = {}"
proof (induction xs arbitrary: P)
  case Nil
  then show ?case by simp
next
  case (Cons x xs)
  from Cons [of "insert x P"] show ?case by auto
qed

text \<open>What one transaction leaves in the sets.\<close>

lemma screenTx_setSerials:
  "setSerials (screenTx ch h ptx sc)
     = setSerials sc \<union> set (examinedSerials ch h (setTxSerialHashes ptx) (setSerials sc))"
  using scanSerials_examined [of ch h "setTxSerialHashes ptx" "setSerials sc"]
  by (cases rule: screenTx_cases [of ch h ptx sc]) (auto simp: setTxSerialHashes_def)

lemma screenTx_setPubcoins:
  assumes "\<not> fst (scanSerials ch h (setTxSerialHashes ptx) (setSerials sc))"
  shows "setPubcoins (screenTx ch h ptx sc)
     = setPubcoins sc \<union> set (examinedPubcoins ch (setTxPubcoinHashes ptx) (setPubcoins sc))"
  using scanPubcoins_examined [of ch "setTxPubcoinHashes ptx" "setPubcoins sc"] assms
  by (cases rule: screenTx_cases [of ch h ptx sc])
     (auto simp: setTxSerialHashes_def setTxPubcoinHashes_def)

lemma screenTx_marked:
  assumes "fst (scanSerials ch h (setTxSerialHashes ptx) (setSerials sc))
      \<or> fst (scanPubcoins ch (setTxPubcoinHashes ptx) (setPubcoins sc))"
  shows "GetHash ptx \<in> setDuplicate (screenTx ch h ptx sc)"
  using assms
  by (cases rule: screenTx_cases [of ch h ptx sc])
     (auto simp: setTxSerialHashes_def setTxPubcoinHashes_def)

lemma recorded_serial_not_kept:
  assumes fresh: "s \<notin> setSerials (screenBlock ch h as sc0)"
    and rec: "s \<in> setSerials (screenTx ch h X (screenBlock ch h as sc0))"
    and mX: "GetHash X \<in> setDuplicate (screenTx ch h X (screenBlock ch h as sc0))"
    and Z: "Some Z \<in> set (as @ Some X # rest)" "IsZerocoinSpend Z" "s \<in> set (vSerialHashes Z)"
  shows "GetHash Z \<in> setDuplicate (screenBlock ch h (as @ Some X # rest) sc0)"
proof -
  let ?fin = "screenBlock ch h (as @ Some X # rest) sc0"
  from Z(1) consider "Some Z \<in> set as" | "Z = X" | "Some Z \<in> set rest" by auto
  then show ?thesis
  proof cases
    case 1
    then obtain a1 a2 where as: "as = a1 @ Some Z # a2"
      by (auto simp: in_set_conv_decomp)
    show ?thesis
    proof (rule ccontr)
      assume n: "GetHash Z \<notin> setDuplicate ?fin"
      have "?fin = screenBlock ch h (a1 @ Some Z # (a2 @ Some X # rest)) sc0"
        by (simp add: as)
      with n have "GetHash Z \<notin> setDuplicate (screenTx ch h Z (screenBlock ch h a1 sc0))"
        using screen_not_marked_passes [of Z ch h a1 "a2 @ Some X # rest" sc0] by simp
      then have "s \<in> setSerials (screenTx ch h Z (screenBlock ch h a1 sc0))"
        using screenTx_pass(1) [of Z ch h "screenBlock ch h a1 sc0"] Z(2,3) by auto
      then have "s \<in> setSerials (screenBlock ch h as sc0)"
        using screenBlock_mono(1) [of "screenTx ch h Z (screenBlock ch h a1 sc0)" ch h a2]
        by (auto simp: as screenBlock_append)
      with fresh show False by simp
    qed
  next
    case 2
    then show ?thesis
      using mX screenBlock_mono(3) [of "screenTx ch h X (screenBlock ch h as sc0)" ch h rest]
      by (auto simp: screenBlock_append)
  next
    case 3
    then obtain r1 r2 where "rest = r1 @ Some Z # r2"
      by (auto simp: in_set_conv_decomp)
    then show ?thesis
      using screen_later_serial [OF rec Z(2,3), of r1 r2] by simp
  qed
qed

lemma recorded_pubcoin_not_kept:
  assumes fresh: "p \<notin> setPubcoins (screenBlock ch h as sc0)"
    and rec: "p \<in> setPubcoins (screenTx ch h X (screenBlock ch h as sc0))"
    and mX: "GetHash X \<in> setDuplicate (screenTx ch h X (screenBlock ch h as sc0))"
    and Z: "Some Z \<in> set (as @ Some X # rest)" "IsZerocoinMint Z" "p \<in> set (vPubcoinHashes Z)"
  shows "GetHash Z \<in> setDuplicate (screenBlock ch h (as @ Some X # rest) sc0)"
proof -
  let ?fin = "screenBlock ch h (as @ Some X # rest) sc0"
  from Z(1) consider "Some Z \<in> set as" | "Z = X" | "Some Z \<in> set rest" by auto
  then show ?thesis
  proof cases
    case 1
    then obtain a1 a2 where as: "as = a1 @ Some Z # a2"
      by (auto simp: in_set_conv_decomp)
    show ?thesis
    proof (rule ccontr)
      assume n: "GetHash Z \<notin> setDuplicate ?fin"
      have "?fin = screenBlock ch h (a1 @ Some Z # (a2 @ Some X # rest)) sc0"
        by (simp add: as)
      with n have "GetHash Z \<notin> setDuplicate (screenTx ch h Z (screenBlock ch h a1 sc0))"
        using screen_not_marked_passes [of Z ch h a1 "a2 @ Some X # rest" sc0] by simp
      then have "p \<in> setPubcoins (screenTx ch h Z (screenBlock ch h a1 sc0))"
        using screenTx_pass(4) [of Z ch h "screenBlock ch h a1 sc0"] Z(2,3) by auto
      then have "p \<in> setPubcoins (screenBlock ch h as sc0)"
        using screenBlock_mono(2) [of "screenTx ch h Z (screenBlock ch h a1 sc0)" ch h a2]
        by (auto simp: as screenBlock_append)
      with fresh show False by simp
    qed
  next
    case 2
    then show ?thesis
      using mX screenBlock_mono(3) [of "screenTx ch h X (screenBlock ch h as sc0)" ch h rest]
      by (auto simp: screenBlock_append)
  next
    case 3
    then obtain r1 r2 where "rest = r1 @ Some Z # r2"
      by (auto simp: in_set_conv_decomp)
    then show ?thesis
      using screen_later_pubcoin [OF rec Z(2,3), of r1 r2] by simp
  qed
qed

text \<open>
  Claim C10. Let \<open>X\<close> come before \<open>Y\<close> in the block and let the screening mark \<open>X\<close>
  duplicate at its turn, because a serial hash or a pubcoin hash of it collides. The serial
  hashes of \<open>X\<close> examined before the loop over them is left stay in \<open>setSerials\<close>, and, when
  the collision is one of a pubcoin hash, so do the pubcoin hashes examined before it in
  \<open>setPubcoins\<close>. A later spend \<open>Y\<close> with one of these serial hashes, or a later mint \<open>Y\<close>
  with one of these pubcoin hashes, is marked duplicate, left out of the new transaction
  list and handed to \<open>mempool.removeRecursive\<close>; \<open>X\<close> is removed too, and no transaction
  of the new list carries the hash.
\<close>

theorem duplicate_leaves_examined_hashes:
  assumes blk: "vtx a = as @ Some X # bs @ Some Y # cs"
    and marked: "fst (scanSerials ch (nHeight a) (setTxSerialHashes X)
                        (setSerials (screeningUpTo ch a as)))
        \<or> fst (scanPubcoins ch (setTxPubcoinHashes X) (setPubcoins (screeningUpTo ch a as)))"
  shows "(s \<in> set (examinedSerials ch (nHeight a) (setTxSerialHashes X)
                     (setSerials (screeningUpTo ch a as))) \<longrightarrow>
            s \<in> setSerials (screening ch a)
          \<and> (IsZerocoinSpend Y \<and> s \<in> set (vSerialHashes Y) \<longrightarrow>
               GetHash Y \<in> setDuplicate (screening ch a)
             \<and> Y \<in> set (snd (rebuild ch (setDuplicate (screening ch a)) (vtx a)))
             \<and> Some Y \<notin> set (fst (rebuild ch (setDuplicate (screening ch a)) (vtx a))))
          \<and> (\<forall>Z. Some Z \<in> set (fst (rebuild ch (setDuplicate (screening ch a)) (vtx a)))
                  \<and> IsZerocoinSpend Z \<longrightarrow> s \<notin> set (vSerialHashes Z)))
       \<and> (\<not> fst (scanSerials ch (nHeight a) (setTxSerialHashes X)
                    (setSerials (screeningUpTo ch a as)))
          \<and> p \<in> set (examinedPubcoins ch (setTxPubcoinHashes X)
                       (setPubcoins (screeningUpTo ch a as))) \<longrightarrow>
            p \<in> setPubcoins (screening ch a)
          \<and> (IsZerocoinMint Y \<and> p \<in> set (vPubcoinHashes Y) \<longrightarrow>
               GetHash Y \<in> setDuplicate (screening ch a)
             \<and> Y \<in> set (snd (rebuild ch (setDuplicate (screening ch a)) (vtx a)))
             \<and> Some Y \<notin> set (fst (rebuild ch (setDuplicate (screening ch a)) (vtx a))))
          \<and> (\<forall>Z. Some Z \<in> set (fst (rebuild ch (setDuplicate (screening ch a)) (vtx a)))
                  \<and> IsZerocoinMint Z \<longrightarrow> p \<notin> set (vPubcoinHashes Z)))
       \<and> GetHash X \<in> setDuplicate (screening ch a)
       \<and> X \<in> set (snd (rebuild ch (setDuplicate (screening ch a)) (vtx a)))
       \<and> Some X \<notin> set (fst (rebuild ch (setDuplicate (screening ch a)) (vtx a)))"
proof -
  let ?sc0 = "\<lparr>setSerials = {}, setPubcoins = {}, setDuplicate = {},
        nNetworkRewardReserve = prevNetworkRewardReserve ch\<rparr>"
  let ?h = "nHeight a"
  let ?scB = "screenBlock ch ?h as ?sc0"
  let ?scX = "screenTx ch ?h X ?scB"
  let ?fin = "screenBlock ch ?h (as @ Some X # bs @ Some Y # cs) ?sc0"
  let ?dup = "setDuplicate (screening ch a)"
  have scB: "screeningUpTo ch a as = ?scB"
    by (simp add: screeningUpTo_def)
  have fin: "screening ch a = ?fin"
    by (simp add: screening_def blk)
  have fin2: "?fin = screenBlock ch ?h (bs @ Some Y # cs) ?scX"
    by (simp add: screenBlock_append)
  have mX: "GetHash X \<in> setDuplicate ?scX"
    using marked unfolding scB by (rule screenTx_marked)
  have dX: "GetHash X \<in> ?dup"
    using mX screenBlock_mono(3) [of ?scX ch ?h "bs @ Some Y # cs"] unfolding fin fin2 by auto
  have inX: "Some X \<in> set (vtx a)" and inY: "Some Y \<in> set (vtx a)"
    by (simp_all add: blk)
  have kept0: "\<And>Z. Some Z \<in> set (fst (rebuild ch ?dup (vtx a)))
      \<Longrightarrow> Some Z \<in> set (vtx a) \<and> GetHash Z \<notin> ?dup"
    by (auto simp: rebuild_fst keptByRebuild_def)
  have kept: "Some Z \<in> set (as @ Some X # bs @ Some Y # cs) \<and> GetHash Z \<notin> setDuplicate ?fin"
    if "Some Z \<in> set (fst (rebuild ch ?dup (vtx a)))" for Z
    using kept0 [OF that] unfolding blk fin by blast
  have removed: "\<And>Z. Some Z \<in> set (vtx a) \<Longrightarrow> GetHash Z \<in> ?dup
      \<Longrightarrow> Z \<in> set (snd (rebuild ch ?dup (vtx a)))
          \<and> Some Z \<notin> set (fst (rebuild ch ?dup (vtx a)))"
    by (auto simp: rebuild_fst rebuild_snd keptByRebuild_def)
  have serial: "s \<in> setSerials (screening ch a)
          \<and> (IsZerocoinSpend Y \<and> s \<in> set (vSerialHashes Y) \<longrightarrow>
               GetHash Y \<in> ?dup
             \<and> Y \<in> set (snd (rebuild ch ?dup (vtx a)))
             \<and> Some Y \<notin> set (fst (rebuild ch ?dup (vtx a))))
          \<and> (\<forall>Z. Some Z \<in> set (fst (rebuild ch ?dup (vtx a)))
                  \<and> IsZerocoinSpend Z \<longrightarrow> s \<notin> set (vSerialHashes Z))"
    if ex: "s \<in> set (examinedSerials ch ?h (setTxSerialHashes X) (setSerials (screeningUpTo ch a as)))"
  proof -
    have fresh: "s \<notin> setSerials ?scB"
      using ex examinedSerials_fresh [of ch ?h "setTxSerialHashes X" "setSerials ?scB"]
      unfolding scB by auto
    have rec: "s \<in> setSerials ?scX"
      using ex unfolding scB by (simp add: screenTx_setSerials)
    have 1: "s \<in> setSerials (screening ch a)"
      using rec screenBlock_mono(1) [of ?scX ch ?h "bs @ Some Y # cs"] unfolding fin fin2 by auto
    have 2: "GetHash Y \<in> ?dup" if "IsZerocoinSpend Y" "s \<in> set (vSerialHashes Y)"
      unfolding fin using rec that by (rule screen_later_serial)
    have 3: "s \<notin> set (vSerialHashes Z)"
      if "Some Z \<in> set (fst (rebuild ch ?dup (vtx a)))" "IsZerocoinSpend Z" for Z
      using recorded_serial_not_kept [OF fresh rec mX, of Z "bs @ Some Y # cs"] kept [OF that(1)] that(2)
      by blast
    from 1 2 3 removed [OF inY] show ?thesis by blast
  qed
  have pubcoin: "p \<in> setPubcoins (screening ch a)
          \<and> (IsZerocoinMint Y \<and> p \<in> set (vPubcoinHashes Y) \<longrightarrow>
               GetHash Y \<in> ?dup
             \<and> Y \<in> set (snd (rebuild ch ?dup (vtx a)))
             \<and> Some Y \<notin> set (fst (rebuild ch ?dup (vtx a))))
          \<and> (\<forall>Z. Some Z \<in> set (fst (rebuild ch ?dup (vtx a)))
                  \<and> IsZerocoinMint Z \<longrightarrow> p \<notin> set (vPubcoinHashes Z))"
    if ns: "\<not> fst (scanSerials ch ?h (setTxSerialHashes X) (setSerials (screeningUpTo ch a as)))"
      and ex: "p \<in> set (examinedPubcoins ch (setTxPubcoinHashes X) (setPubcoins (screeningUpTo ch a as)))"
  proof -
    have fresh: "p \<notin> setPubcoins ?scB"
      using ex examinedPubcoins_fresh [of ch "setTxPubcoinHashes X" "setPubcoins ?scB"]
      unfolding scB by auto
    have rec: "p \<in> setPubcoins ?scX"
      using ex ns unfolding scB by (simp add: screenTx_setPubcoins)
    have 1: "p \<in> setPubcoins (screening ch a)"
      using rec screenBlock_mono(2) [of ?scX ch ?h "bs @ Some Y # cs"] unfolding fin fin2 by auto
    have 2: "GetHash Y \<in> ?dup" if "IsZerocoinMint Y" "p \<in> set (vPubcoinHashes Y)"
      unfolding fin using rec that by (rule screen_later_pubcoin)
    have 3: "p \<notin> set (vPubcoinHashes Z)"
      if "Some Z \<in> set (fst (rebuild ch ?dup (vtx a)))" "IsZerocoinMint Z" for Z
      using recorded_pubcoin_not_kept [OF fresh rec mX, of Z "bs @ Some Y # cs"] kept [OF that(1)] that(2)
      by blast
    from 1 2 3 removed [OF inY] show ?thesis by blast
  qed
  from serial pubcoin dX removed [OF inX dX] show ?thesis by blast
qed

theorem duplicate_leaves_examined_hashes_witness:
  "2 \<in> setSerials (screening (exampleChain [3] [] [] (50, 0, 0, 0))
          (exampleBlock [exampleTx 11 [2, 3] [] [], exampleTx 12 [2] [] []]))
   \<and> GetHash (exampleTx 12 [2] [] [])
       \<in> setDuplicate (screening (exampleChain [3] [] [] (50, 0, 0, 0))
            (exampleBlock [exampleTx 11 [2, 3] [] [], exampleTx 12 [2] [] []]))
   \<and> rebuild (exampleChain [3] [] [] (50, 0, 0, 0))
        (setDuplicate (screening (exampleChain [3] [] [] (50, 0, 0, 0))
            (exampleBlock [exampleTx 11 [2, 3] [] [], exampleTx 12 [2] [] []])))
        (vtx (exampleBlock [exampleTx 11 [2, 3] [] [], exampleTx 12 [2] [] []]))
      = ([None], [exampleTx 11 [2, 3] [] [], exampleTx 12 [2] [] []])"
proof -
  let ?ch = "exampleChain [3] [] [] (50, 0, 0, 0)"
  let ?X = "exampleTx 11 [2, 3] [] []" and ?Y = "exampleTx 12 [2] [] []"
  let ?a = "exampleBlock [?X, ?Y]"
  have blk: "vtx ?a = [None] @ Some ?X # [] @ Some ?Y # []"
    by code_simp
  have m: "fst (scanSerials ?ch (nHeight ?a) (setTxSerialHashes ?X)
                        (setSerials (screeningUpTo ?ch ?a [None])))
        \<or> fst (scanPubcoins ?ch (setTxPubcoinHashes ?X) (setPubcoins (screeningUpTo ?ch ?a [None])))"
    by code_simp
  have ex: "2 \<in> set (examinedSerials ?ch (nHeight ?a) (setTxSerialHashes ?X)
                     (setSerials (screeningUpTo ?ch ?a [None])))"
    by code_simp
  have y: "IsZerocoinSpend ?Y \<and> 2 \<in> set (vSerialHashes ?Y)"
    by code_simp
  have rb: "rebuild ?ch (setDuplicate (screening ?ch ?a)) (vtx ?a) = ([None], [?X, ?Y])"
    by code_simp
  from duplicate_leaves_examined_hashes [OF blk m, of 2 0] ex y rb show ?thesis
    by blast
qed

subsection \<open>C7: the minimum fee rate\<close>

lemma TestPackage_minFeeRate [simp]:
  "TestPackage cp (a\<lparr>blockMinFeeRate := r\<rparr>) n c = TestPackage cp a n c"
  by (simp add: TestPackage_def)

lemma onlyUnconfirmed_minFeeRate [simp]:
  "onlyUnconfirmed (a\<lparr>blockMinFeeRate := r\<rparr>) t = onlyUnconfirmed a t"
  by (simp add: onlyUnconfirmed_def)

lemma TestPackageTransactions_minFeeRate [simp]:
  "TestPackageTransactions ch pool (a\<lparr>blockMinFeeRate := r\<rparr>) package
     = TestPackageTransactions ch pool a package"
  by (induction package) auto

lemma AddToBlock_minFeeRate:
  "AddToBlock pool h (a\<lparr>blockMinFeeRate := r\<rparr>) = (AddToBlock pool h a)\<lparr>blockMinFeeRate := r\<rparr>"
  by (simp add: AddToBlock_def)

lemma SkipMapTxEntry_minFeeRate [simp]:
  "SkipMapTxEntry (a\<lparr>blockMinFeeRate := r\<rparr>) it ms failed = SkipMapTxEntry a it ms failed"
  by (simp add: SkipMapTxEntry_def)

lemma failCandidate_minFeeRate:
  "failCandidate u it (withMinFeeRate r s) = withMinFeeRate r (failCandidate u it s)"
  by (simp add: failCandidate_def withMinFeeRate_def)

lemma addAll_minFeeRate:
  "fold (\<lambda>h t. t\<lparr>asm := AddToBlock pool h (asm t),
                   mapModifiedTx := eraseModified h (mapModifiedTx t)\<rparr>) hs (withMinFeeRate r s)
   = withMinFeeRate r
       (fold (\<lambda>h t. t\<lparr>asm := AddToBlock pool h (asm t),
                         mapModifiedTx := eraseModified h (mapModifiedTx t)\<rparr>) hs s)"
proof (induction hs arbitrary: s)
  case Nil
  show ?case by simp
next
  case (Cons h hs)
  have e: "(withMinFeeRate r s)\<lparr>asm := AddToBlock pool h (asm (withMinFeeRate r s)),
             mapModifiedTx := eraseModified h (mapModifiedTx (withMinFeeRate r s))\<rparr>
      = withMinFeeRate r (s\<lparr>asm := AddToBlock pool h (asm s),
             mapModifiedTx := eraseModified h (mapModifiedTx s)\<rparr>)"
    by (simp add: withMinFeeRate_def AddToBlock_minFeeRate)
  show ?case
    by (simp only: fold_simps e Cons.IH)
qed

lemma commitPackage_minFeeRate:
  "commitPackage pool anc (withMinFeeRate r s) = withMinFeeRate r (commitPackage pool anc s)"
proof -
  have 1: "(withMinFeeRate r s)\<lparr>nConsecutiveFailed := 0\<rparr> = withMinFeeRate r (s\<lparr>nConsecutiveFailed := 0\<rparr>)"
    by (simp add: withMinFeeRate_def)
  show ?thesis
    unfolding commitPackage_def Let_def 1 addAll_minFeeRate
    by (simp add: withMinFeeRate_def split: prod.splits)
qed

lemma evaluatePackage_minFeeRate:
  "evaluatePackage ch pool it u (withMinFeeRate r s)
     = (case evaluatePackage ch pool it u s of
          Continue s' \<Rightarrow> Continue (withMinFeeRate r s')
        | Exit s' \<Rightarrow> Exit (withMinFeeRate r s')
        | Assert \<Rightarrow> Assert)"
proof -
  have f: "\<And>t. (failCandidate u it (withMinFeeRate r s))\<lparr>nConsecutiveFailed := t\<rparr>
      = withMinFeeRate r ((failCandidate u it s)\<lparr>nConsecutiveFailed := t\<rparr>)"
    by (simp add: failCandidate_def withMinFeeRate_def)
  have g: "mapModifiedTx (withMinFeeRate r s) = mapModifiedTx s"
     "asm (withMinFeeRate r s) = (asm s)\<lparr>blockMinFeeRate := r\<rparr>"
     "nConsecutiveFailed (withMinFeeRate r s) = nConsecutiveFailed s"
    by (simp_all add: withMinFeeRate_def)
  have h: "\<And>t. nConsecutiveFailed (withMinFeeRate r t) = nConsecutiveFailed t"
     "\<And>t. nBlockWeight (asm (withMinFeeRate r t)) = nBlockWeight (asm t)"
     "\<And>t. nBlockMaxWeight (asm (withMinFeeRate r t)) = nBlockMaxWeight (asm t)"
    by (simp_all add: withMinFeeRate_def)
  show ?thesis
    unfolding evaluatePackage_def Let_def g f commitPackage_minFeeRate
    by (simp add: h failCandidate_minFeeRate [symmetric])
qed


lemma step_minFeeRate:
  "step ch pool (withMinFeeRate r s)
     = (case step ch pool s of
          Continue s' \<Rightarrow> Continue (withMinFeeRate r s')
        | Exit s' \<Rightarrow> Exit (withMinFeeRate r s')
        | Assert \<Rightarrow> Assert)"
proof -
  have g: "mi (withMinFeeRate r s) = mi s" "mapModifiedTx (withMinFeeRate r s) = mapModifiedTx s"
    "failedTx (withMinFeeRate r s) = failedTx s"
    "asm (withMinFeeRate r s) = (asm s)\<lparr>blockMinFeeRate := r\<rparr>"
    by (simp_all add: withMinFeeRate_def)
  have m: "\<And>x. (withMinFeeRate r s)\<lparr>mi := x\<rparr> = withMinFeeRate r (s\<lparr>mi := x\<rparr>)"
    by (simp add: withMinFeeRate_def)
  show ?thesis
    unfolding step_def g m evaluatePackage_minFeeRate
    by (simp split: option.splits prod.splits)
qed

lemma addPackageTxs_loop_minFeeRate:
  "addPackageTxs_loop fuel ch pool (withMinFeeRate r s)
     = map_sum id (withMinFeeRate r) (addPackageTxs_loop fuel ch pool s)"
proof (induction fuel arbitrary: s)
  case 0
  show ?case by simp
next
  case (Suc fuel)
  show ?case
    by (cases "step ch pool s") (simp_all add: step_minFeeRate Suc.IH)
qed

lemma addPackageTxs_minFeeRate:
  "addPackageTxs fuel ch pool (a\<lparr>blockMinFeeRate := r\<rparr>)
     = map_sum id (withMinFeeRate r) (addPackageTxs fuel ch pool a)"
proof -
  have "\<lparr>asm = a\<lparr>blockMinFeeRate := r\<rparr>, mi = ancestor_score pool,
        mapModifiedTx = snd (UpdatePackagesForAdded pool (inBlock (a\<lparr>blockMinFeeRate := r\<rparr>)) []),
        failedTx = [], nConsecutiveFailed = 0, nPackagesSelected = 0, nDescendantsUpdated = 0\<rparr>
     = withMinFeeRate r \<lparr>asm = a, mi = ancestor_score pool,
        mapModifiedTx = snd (UpdatePackagesForAdded pool (inBlock a) []),
        failedTx = [], nConsecutiveFailed = 0, nPackagesSelected = 0, nDescendantsUpdated = 0\<rparr>"
    by (simp add: withMinFeeRate_def)
  then show ?thesis
    unfolding addPackageTxs_def by (simp only: addPackageTxs_loop_minFeeRate)
qed

lemma finishBlock_minFeeRate:
  "finishBlock ch w v script pos stake (a\<lparr>blockMinFeeRate := r\<rparr>)
     = finishBlock ch w v script pos stake a"
proof -
  have s: "screening ch (a\<lparr>blockMinFeeRate := r\<rparr>) = screening ch a"
    by (simp add: screening_def)
  have n: "nNetworkReward ch (a\<lparr>blockMinFeeRate := r\<rparr>) = nNetworkReward ch a"
    by (simp add: nNetworkReward_def s)
  show ?thesis
    unfolding finishBlock_def s n by simp
qed

text \<open>
  Claim C7. The selection does not depend on the configured minimum fee rate: for every
  pool, chain and state of the assembler, \<open>addPackageTxs\<close> run with any two values of
  \<open>blockMinFeeRate\<close> ends the same way and, when it returns, with the same sequence of
  transactions in the block; so does \<open>CreateNewBlock\<close>, with the same evictions and the same
  template. The test of the fee rate is commented out in the source, and nothing else
  reads the field; \<open>-blockmintxfee\<close> changes nothing in the assembler but this field.
\<close>

theorem selection_ignores_minFeeRate:
  "map_sum id (\<lambda>s. vtx (asm s)) (addPackageTxs fuel ch pool (a\<lparr>blockMinFeeRate := r1\<rparr>))
     = map_sum id (\<lambda>s. vtx (asm s)) (addPackageTxs fuel ch pool (a\<lparr>blockMinFeeRate := r2\<rparr>))
   \<and> CreateNewBlock fuel ch pool w fLockMem v (a\<lparr>blockMinFeeRate := r1\<rparr>) script pos
     = CreateNewBlock fuel ch pool w fLockMem v (a\<lparr>blockMinFeeRate := r2\<rparr>) script pos
   \<and> BlockAssembler_new cp (DefaultOptions maxWeight minFee blockmaxweight blockmintxfee)
     = (BlockAssembler_new cp (DefaultOptions maxWeight minFee blockmaxweight None))
         \<lparr>blockMinFeeRate := (case blockmintxfee of Some n \<Rightarrow> n | None \<Rightarrow> minFee)\<rparr>"
proof (intro conjI)
  have "map_sum id (\<lambda>s. vtx (asm s)) (addPackageTxs fuel ch pool (a\<lparr>blockMinFeeRate := r\<rparr>))
     = map_sum id (\<lambda>s. vtx (asm s)) (addPackageTxs fuel ch pool a)" for r
    unfolding addPackageTxs_minFeeRate
    by (cases "addPackageTxs fuel ch pool a") (simp_all add: withMinFeeRate_def)
  then show "map_sum id (\<lambda>s. vtx (asm s)) (addPackageTxs fuel ch pool (a\<lparr>blockMinFeeRate := r1\<rparr>))
     = map_sum id (\<lambda>s. vtx (asm s)) (addPackageTxs fuel ch pool (a\<lparr>blockMinFeeRate := r2\<rparr>))"
    by simp
next
  have p: "startBlock ch (a\<lparr>blockMinFeeRate := r\<rparr>) = (startBlock ch a)\<lparr>blockMinFeeRate := r\<rparr>" for r
    by (simp add: startBlock_def resetBlock_def)
  have "CreateNewBlock fuel ch pool w fLockMem v (a\<lparr>blockMinFeeRate := r\<rparr>) script pos
      = CreateNewBlock fuel ch pool w fLockMem v a script pos" for r
    unfolding CreateNewBlock_def Let_def p addPackageTxs_minFeeRate
    by (cases "addPackageTxs fuel ch pool (startBlock ch a)")
       (auto simp add: withMinFeeRate_def finishBlock_minFeeRate split: option.splits)
  then show "CreateNewBlock fuel ch pool w fLockMem v (a\<lparr>blockMinFeeRate := r1\<rparr>) script pos
     = CreateNewBlock fuel ch pool w fLockMem v (a\<lparr>blockMinFeeRate := r2\<rparr>) script pos"
    by simp
next
  show "BlockAssembler_new cp (DefaultOptions maxWeight minFee blockmaxweight blockmintxfee)
     = (BlockAssembler_new cp (DefaultOptions maxWeight minFee blockmaxweight None))
         \<lparr>blockMinFeeRate := (case blockmintxfee of Some n \<Rightarrow> n | None \<Rightarrow> minFee)\<rparr>"
    by (simp add: BlockAssembler_new_def DefaultOptions_def)
qed

theorem selection_ignores_minFeeRate_witness:
  "map_sum id (\<lambda>s. vtx (asm s))
     (addPackageTxs 10 (exampleChain [] [] [] (50, 0, 0, 0)) examplePool
        (exampleEmptyBlock\<lparr>blockMinFeeRate := 1000000\<rparr>))
   = Inr [None, Some (exampleTx 1 [] [] []), Some (exampleTx 2 [] [] []),
          Some (exampleTx 3 [] [] [])]"
proof -
  have "map_sum id (\<lambda>s. vtx (asm s))
     (addPackageTxs 10 (exampleChain [] [] [] (50, 0, 0, 0)) examplePool
        (exampleEmptyBlock\<lparr>blockMinFeeRate := 0\<rparr>))
   = Inr [None, Some (exampleTx 1 [] [] []), Some (exampleTx 2 [] [] []),
          Some (exampleTx 3 [] [] [])]"
    by code_simp
  with selection_ignores_minFeeRate [where fuel = 10 and ch = "exampleChain [] [] [] (50, 0, 0, 0)"
      and pool = examplePool and a = exampleEmptyBlock and ?r1.0 = 1000000 and ?r2.0 = 0]
  show ?thesis by simp
qed

subsection \<open>C1: ancestors come first\<close>

lemma ancestorsBefore_set:
  "set seen = set seen' \<Longrightarrow> ancestorsBefore pool seen hs = ancestorsBefore pool seen' hs"
proof (induction hs arbitrary: seen seen')
  case Nil
  show ?case by simp
next
  case (Cons T hs)
  have "set (seen @ [T]) = set (seen' @ [T])"
    using Cons.prems by simp
  from Cons.IH [OF this] Cons.prems show ?case by simp
qed

lemma ancestorsBefore_append:
  "ancestorsBefore pool seen (xs @ ys)
     \<longleftrightarrow> ancestorsBefore pool seen xs \<and> ancestorsBefore pool (seen @ xs) ys"
  by (induction xs arbitrary: seen) auto

lemma ancestorsBefore_decomp:
  "ancestorsBefore pool seen hs
     \<longleftrightarrow> (\<forall>pre T post. hs = pre @ T # post \<longrightarrow>
            set (CalculateMemPoolAncestors pool T) \<subseteq> set seen \<union> set pre)"
proof (induction hs arbitrary: seen)
  case Nil
  show ?case by simp
next
  case (Cons x hs)
  show ?case
  proof
    assume a: "ancestorsBefore pool seen (x # hs)"
    show "\<forall>pre T post. x # hs = pre @ T # post \<longrightarrow>
            set (CalculateMemPoolAncestors pool T) \<subseteq> set seen \<union> set pre"
    proof (intro allI impI)
      fix pre T post
      assume d: "x # hs = pre @ T # post"
      show "set (CalculateMemPoolAncestors pool T) \<subseteq> set seen \<union> set pre"
      proof (cases pre)
        case Nil
        with d a show ?thesis by auto
      next
        case (Cons y pre')
        with d have "hs = pre' @ T # post" "y = x" by auto
        with a Cons.IH [of "seen @ [x]"] Cons show ?thesis by auto
      qed
    qed
  next
    assume r: "\<forall>pre T post. x # hs = pre @ T # post \<longrightarrow>
            set (CalculateMemPoolAncestors pool T) \<subseteq> set seen \<union> set pre"
    have 1: "set (CalculateMemPoolAncestors pool x) \<subseteq> set seen"
      using r [rule_format, of "[]" x hs] by simp
    have 2: "\<forall>pre T post. hs = pre @ T # post \<longrightarrow>
            set (CalculateMemPoolAncestors pool T) \<subseteq> set (seen @ [x]) \<union> set pre"
    proof (intro allI impI)
      fix pre T post
      assume "hs = pre @ T # post"
      then have "x # hs = (x # pre) @ T # post" by simp
      from r [rule_format, OF this] show "set (CalculateMemPoolAncestors pool T) \<subseteq> set (seen @ [x]) \<union> set pre"
        by auto
    qed
    from 1 2 Cons.IH [of "seen @ [x]"] show "ancestorsBefore pool seen (x # hs)"
      by simp
  qed
qed

lemma ancestorsBefore_index:
  assumes "ancestorsBefore pool [] hs" "i < length hs"
    "x \<in> set (CalculateMemPoolAncestors pool (hs ! i))"
  shows "\<exists>j<i. hs ! j = x"
proof -
  have "hs = take i hs @ hs ! i # drop (Suc i) hs"
    using assms(2) by (rule id_take_nth_drop)
  with assms(1) have "set (CalculateMemPoolAncestors pool (hs ! i)) \<subseteq> set (take i hs)"
    unfolding ancestorsBefore_decomp by (metis empty_set sup_bot_left)
  with assms(3) have "x \<in> set (take i hs)" by auto
  then obtain j where "j < length (take i hs)" "take i hs ! j = x"
    by (auto simp: in_set_conv_nth)
  then show ?thesis using assms(2) by auto
qed

lemma set_insertEntry [simp]: "set (insertEntry h xs) = insert h (set xs)"
  by (auto simp: insertEntry_def set_insort_key)

lemma distinct_insertEntry: "distinct xs \<Longrightarrow> distinct (insertEntry h xs)"
  by (auto simp: insertEntry_def distinct_insort)

lemma set_mkSetEntries [simp]: "set (mkSetEntries xs) = set xs"
  by (simp add: mkSetEntries_def)

lemma distinct_mkSetEntries [simp]: "distinct (mkSetEntries xs)"
  by (simp add: mkSetEntries_def)

lemma set_SortForBlock [simp]: "set (SortForBlock pool xs) = set xs"
  by (simp add: SortForBlock_def)

lemma distinct_SortForBlock [simp]: "distinct (SortForBlock pool xs) = distinct xs"
  by (simp add: SortForBlock_def)

lemma sorted_SortForBlock:
  "sorted (map (\<lambda>h. GetCountWithAncestors (mapTx pool h)) (SortForBlock pool xs))"
  by (simp add: SortForBlock_def)

lemma package_ancestorsBefore:
  assumes wf: "consistentAncestors pool"
    and inb: "set hs = set (inBlock a)"
  shows "ancestorsBefore pool hs
           (SortForBlock pool
              (insertEntry it
                 (onlyUnconfirmed a (mkSetEntries (CalculateMemPoolAncestors pool it)))))"
    (is "ancestorsBefore pool hs (SortForBlock pool ?pkg)")
  unfolding ancestorsBefore_decomp
proof (intro allI impI subsetI)
  fix pre T post x
  assume d: "SortForBlock pool ?pkg = pre @ T # post"
    and x: "x \<in> set (CalculateMemPoolAncestors pool T)"
  let ?count = "\<lambda>h. GetCountWithAncestors (mapTx pool h)"
  have pk: "set ?pkg = insert it (set (CalculateMemPoolAncestors pool it) - set (inBlock a))"
    by (auto simp: onlyUnconfirmed_def)
  have "T \<in> set (SortForBlock pool ?pkg)"
    unfolding d by simp
  then have "T = it \<or> T \<in> set (CalculateMemPoolAncestors pool it)"
    using pk by auto
  then have xit: "x \<in> set (CalculateMemPoolAncestors pool it)"
    using x wf unfolding consistentAncestors_def by blast
  have lt: "?count x < ?count T"
    using x wf unfolding consistentAncestors_def by blast
  show "x \<in> set hs \<union> set pre"
  proof (cases "x \<in> set (inBlock a)")
    case True
    then show ?thesis using inb by simp
  next
    case False
    with xit pk have "x \<in> set (SortForBlock pool ?pkg)"
      by auto
    then have "x \<in> set pre \<or> x = T \<or> x \<in> set post"
      unfolding d by auto
    moreover have "x \<noteq> T"
      using lt by auto
    moreover have "x \<notin> set post"
    proof
      assume "x \<in> set post"
      moreover have "sorted (map ?count (pre @ T # post))"
        using sorted_SortForBlock [of pool ?pkg] unfolding d .
      ultimately have "?count T \<le> ?count x"
        by (auto simp: sorted_append)
      with lt show False by simp
    qed
    ultimately show ?thesis by simp
  qed
qed

lemma package_distinct:
  assumes "distinct hs" "set hs = set (inBlock a)" "it \<notin> set (inBlock a)"
  shows "distinct (hs @ SortForBlock pool
              (insertEntry it
                 (onlyUnconfirmed a (mkSetEntries (CalculateMemPoolAncestors pool it)))))"
  using assms
  by (auto simp: onlyUnconfirmed_def intro!: distinct_insertEntry)

lemma addAll_asm:
  "vtx (asm (fold (\<lambda>h t. t\<lparr>asm := AddToBlock pool h (asm t),
                   mapModifiedTx := eraseModified h (mapModifiedTx t)\<rparr>) xs s))
     = vtx (asm s) @ map (blockTx pool) xs
   \<and> set (inBlock (asm (fold (\<lambda>h t. t\<lparr>asm := AddToBlock pool h (asm t),
                   mapModifiedTx := eraseModified h (mapModifiedTx t)\<rparr>) xs s)))
     = set (inBlock (asm s)) \<union> set xs"
  by (induction xs arbitrary: s) (auto simp: AddToBlock_def blockTx_def)

lemma asm_commitPackage:
  "asm (commitPackage pool pkg s)
     = asm (fold (\<lambda>h t. t\<lparr>asm := AddToBlock pool h (asm t),
                   mapModifiedTx := eraseModified h (mapModifiedTx t)\<rparr>)
             (SortForBlock pool pkg) (s\<lparr>nConsecutiveFailed := 0\<rparr>))"
  by (simp add: commitPackage_def Let_def split: prod.splits)

lemma committed_commitPackage:
  assumes wf: "consistentAncestors pool"
    and c: "committed pool (asm s) hs"
    and it: "it \<notin> set (inBlock (asm s))"
  shows "committed pool
           (asm (commitPackage pool
              (insertEntry it
                 (onlyUnconfirmed (asm s) (mkSetEntries (CalculateMemPoolAncestors pool it)))) s))
           (hs @ SortForBlock pool
              (insertEntry it
                 (onlyUnconfirmed (asm s) (mkSetEntries (CalculateMemPoolAncestors pool it)))))"
    (is "committed pool (asm (commitPackage pool ?pkg s)) (hs @ ?sorted)")
proof -
  from c have d: "distinct hs" and i: "set hs = set (inBlock (asm s))"
    and v: "vtx (asm s) = None # map (blockTx pool) hs" and o: "ancestorsBefore pool [] hs"
    by (simp_all add: committed_def)
  have 1: "distinct (hs @ ?sorted)"
    using d i it by (rule package_distinct)
  have 2: "set (hs @ ?sorted) = set (inBlock (asm (commitPackage pool ?pkg s)))"
    unfolding asm_commitPackage using addAll_asm [of pool ?sorted "s\<lparr>nConsecutiveFailed := 0\<rparr>"] i
    by simp
  have 3: "vtx (asm (commitPackage pool ?pkg s)) = None # map (blockTx pool) (hs @ ?sorted)"
    unfolding asm_commitPackage using addAll_asm [of pool ?sorted "s\<lparr>nConsecutiveFailed := 0\<rparr>"] v
    by simp
  have 4: "ancestorsBefore pool [] (hs @ ?sorted)"
    unfolding ancestorsBefore_append using o package_ancestorsBefore [OF wf i, of it] by simp
  from 1 2 3 4 show ?thesis
    unfolding committed_def by blast
qed

lemma asm_failCandidate [simp]: "asm (failCandidate u it s) = asm s"
  by (simp add: failCandidate_def)

lemma committed_evaluatePackage:
  assumes wf: "consistentAncestors pool"
    and c: "committed pool (asm s) hs"
    and it: "it \<notin> set (inBlock (asm s))"
    and r: "evaluatePackage ch pool it u s = Continue s' \<or> evaluatePackage ch pool it u s = Exit s'"
  shows "\<exists>hs'. committed pool (asm s') hs'"
proof -
  let ?pkg = "insertEntry it
                 (onlyUnconfirmed (asm s) (mkSetEntries (CalculateMemPoolAncestors pool it)))"
  from r consider "asm s' = asm s" | "s' = commitPackage pool ?pkg s"
    by (auto simp: evaluatePackage_def Let_def split: if_splits)
  then show ?thesis
  proof cases
    case 1
    with c show ?thesis by auto
  next
    case 2
    with committed_commitPackage [OF wf c it] show ?thesis by auto
  qed
qed

lemma committed_step:
  assumes wf: "consistentAncestors pool"
    and c: "committed pool (asm s) hs"
    and r: "step ch pool s = Continue s' \<or> step ch pool s = Exit s'"
  shows "\<exists>hs'. committed pool (asm s') hs'"
proof -
  from r have "asm s' = asm s
      \<or> (\<exists>it u m. it \<notin> set (inBlock (asm s))
            \<and> (evaluatePackage ch pool it u (s\<lparr>mi := m\<rparr>) = Continue s'
               \<or> evaluatePackage ch pool it u (s\<lparr>mi := m\<rparr>) = Exit s'))"
    unfolding step_def by (fastforce split: if_splits option.splits)
  then show ?thesis
  proof
    assume "asm s' = asm s"
    with c show ?thesis by auto
  next
    assume "\<exists>it u m. it \<notin> set (inBlock (asm s))
            \<and> (evaluatePackage ch pool it u (s\<lparr>mi := m\<rparr>) = Continue s'
               \<or> evaluatePackage ch pool it u (s\<lparr>mi := m\<rparr>) = Exit s')"
    then obtain it u m where 2: "it \<notin> set (inBlock (asm s))"
       "evaluatePackage ch pool it u (s\<lparr>mi := m\<rparr>) = Continue s'
               \<or> evaluatePackage ch pool it u (s\<lparr>mi := m\<rparr>) = Exit s'"
      by blast
    have c': "committed pool (asm (s\<lparr>mi := m\<rparr>)) hs"
      using c by simp
    have i': "it \<notin> set (inBlock (asm (s\<lparr>mi := m\<rparr>)))"
      using 2(1) by simp
    from committed_evaluatePackage [OF wf c' i' 2(2)] show ?thesis .
  qed
qed

lemma committed_loop:
  assumes wf: "consistentAncestors pool"
  shows "committed pool (asm s) hs \<Longrightarrow> addPackageTxs_loop fuel ch pool s = Inr s'
     \<Longrightarrow> \<exists>hs'. committed pool (asm s') hs'"
proof (induction fuel arbitrary: s hs)
  case 0
  then show ?case by simp
next
  case (Suc fuel)
  show ?case
  proof (cases "step ch pool s")
    case (Continue t)
    with committed_step [OF wf Suc.prems(1), of ch t] obtain hs1 where "committed pool (asm t) hs1"
      by auto
    from Suc.IH [OF this] Suc.prems(2) Continue show ?thesis by simp
  next
    case (Exit t)
    with Suc.prems(2) have "t = s'" by simp
    with committed_step [OF wf Suc.prems(1), of ch s'] Exit show ?thesis by simp
  next
    case Assert
    with Suc.prems(2) show ?thesis by simp
  qed
qed

lemma committed_addPackageTxs:
  assumes "consistentAncestors pool" "addPackageTxs fuel ch pool (startBlock ch a) = Inr s"
  shows "\<exists>hs. committed pool (asm s) hs"
proof -
  have "committed pool (startBlock ch a) []"
    by (simp add: committed_def startBlock_def resetBlock_def)
  then have "committed pool
      (asm \<lparr>asm = startBlock ch a, mi = ancestor_score pool,
         mapModifiedTx = snd (UpdatePackagesForAdded pool (inBlock (startBlock ch a)) []),
         failedTx = [], nConsecutiveFailed = 0, nPackagesSelected = 0,
         nDescendantsUpdated = 0\<rparr>) []"
    by simp
  from committed_loop [OF assms(1) this assms(2) [unfolded addPackageTxs_def]]
  show ?thesis .
qed

lemma tl_filter_distinct:
  assumes "distinct xs"
  shows "tl (filter K xs) = filter (\<lambda>x. K x \<and> x \<noteq> hd (filter K xs)) xs"
proof (cases "filter K xs")
  case Nil
  then have "\<forall>x\<in>set xs. \<not> K x"
    by (simp add: filter_empty_conv)
  then have "filter (\<lambda>x. K x \<and> x \<noteq> hd (filter K xs)) xs = []"
    by (simp add: filter_empty_conv)
  with Nil show ?thesis by simp
next
  case (Cons y ys)
  have "distinct (filter K xs)"
    using assms by simp
  then have "y \<notin> set ys"
    unfolding Cons by simp
  then have "filter (\<lambda>x. x \<noteq> y) (y # ys) = ys"
    by (auto simp add: filter_id_conv)
  moreover have "filter (\<lambda>x. K x \<and> x \<noteq> y) xs = filter (\<lambda>x. x \<noteq> y) (filter K xs)"
    by (simp add: conj_commute)
  ultimately show ?thesis
    using Cons by simp
qed

lemma filter_keeps_order:
  assumes o: "ancestorsBefore pool [] hs" and i: "i < length (filter P hs)"
    and x: "x \<in> set (CalculateMemPoolAncestors pool (filter P hs ! i))"
    and k: "x \<in> set (filter P hs)"
  shows "\<exists>j<i. filter P hs ! j = x"
proof -
  let ?k = "filter P hs"
  have "?k = take i ?k @ ?k ! i # drop (Suc i) ?k"
    using i by (rule id_take_nth_drop)
  then obtain u v where uv: "hs = u @ v" "filter P u = take i ?k"
      "filter P v = ?k ! i # drop (Suc i) ?k"
    unfolding filter_eq_append_iff [symmetric] by (metis filter_eq_append_iff)
  from uv(3) obtain us vs where v: "v = us @ ?k ! i # vs" "\<forall>y\<in>set us. \<not> P y"
    by (auto simp: filter_eq_Cons_iff)
  have "hs = (u @ us) @ ?k ! i # vs"
    using uv(1) v(1) by simp
  with o have "set (CalculateMemPoolAncestors pool (?k ! i)) \<subseteq> set (u @ us)"
    unfolding ancestorsBefore_decomp by (metis empty_set sup_bot_left)
  with x have "x \<in> set u \<or> x \<in> set us" by auto
  moreover have "P x" using k by simp
  ultimately have "x \<in> set (filter P u)"
    using v(2) by auto
  then have "x \<in> set (take i ?k)"
    using uv(2) by simp
  then obtain j where "j < length (take i ?k)" "take i ?k ! j = x"
    by (auto simp: in_set_conv_nth)
  then show ?thesis using i by auto
qed

lemma CreateNewBlock_Inr:
  assumes "CreateNewBlock fuel ch pool w fLockMem v a script pos = (rm, Inr tmpl)"
  shows "\<exists>s stake. addPackageTxs fuel ch pool (startBlock ch a) = Inr s
           \<and> finishBlock ch w v script pos stake (asm s) = (rm, Inr tmpl)"
  using assms
  by (cases "addPackageTxs fuel ch pool (startBlock ch a)")
     (auto simp: CreateNewBlock_def Let_def split: if_splits)

lemma poolPart_committed:
  assumes fb: "finishBlock ch w v script pos stake a = (rm, Inr tmpl)"
    and c: "committed pool a hs"
  shows "\<exists>P. poolPart tmpl = map (blockTx pool) (filter P hs)"
proof -
  let ?K = "keptByRebuild ch (setDuplicate (screening ch a)) \<circ> blockTx pool"
  have v: "vtx a = None # map (blockTx pool) hs" and d: "distinct hs"
    using c by (simp_all add: committed_def)
  have r: "fst (rebuild ch (setDuplicate (screening ch a)) (vtx a))
      = None # map (blockTx pool) (filter ?K hs)"
    by (simp add: rebuild_fst v keptByRebuild_def filter_map)
  show ?thesis
  proof (cases pos)
    case False
    then have "poolPart tmpl = map (blockTx pool) (filter ?K hs)"
      using poolPart_finishBlock [OF fb] r by simp
    then show ?thesis by blast
  next
    case True
    then have "poolPart tmpl = map (blockTx pool) (tl (filter ?K hs))"
      using poolPart_finishBlock [OF fb] r by (simp add: numeral_2_eq_2 drop_Suc map_tl)
    then show ?thesis
      unfolding tl_filter_distinct [OF d] by blast
  qed
qed

lemma template_ancestors:
  assumes o: "ancestorsBefore pool [] hs"
    and un: "uniqueTransactions pool"
    and va: "validityNeedsAncestors ch pool"
    and ok: "TestBlockValidity ch B"
    and pp: "drop n B = map (blockTx pool) (filter P hs)"
    and i: "i < length B" and ni: "n \<le> i"
    and T: "B ! i = blockTx pool T"
    and A: "A \<in> set (CalculateMemPoolAncestors pool T)"
  shows "\<exists>j<i. B ! j = blockTx pool A"
proof -
  let ?ks = "filter P hs"
  have len: "length ?ks = length B - n"
    using arg_cong [OF pp, of length] by simp
  have at: "B ! (n + k) = blockTx pool (?ks ! k)" if "k < length ?ks" for k
  proof -
    have "drop n B ! k = B ! (n + k)"
      using that len by (intro nth_drop) simp
    then show ?thesis
      using pp that by simp
  qed
  have ik: "i - n < length ?ks"
    using i ni len by simp
  have "blockTx pool T = blockTx pool (?ks ! (i - n))"
    using at [OF ik] T ni by simp
  then have Tk: "T = ?ks ! (i - n)"
    using un by (simp add: uniqueTransactions_def)
  have "blockTx pool T \<in> set B"
    using i T by (metis nth_mem)
  with va ok A have "blockTx pool A \<in> set B"
    unfolding validityNeedsAncestors_def by blast
  then obtain j where j: "j < length B" "B ! j = blockTx pool A"
    by (auto simp: in_set_conv_nth)
  show ?thesis
  proof (cases "j < n")
    case True
    then have "j < i" using ni by simp
    with j(2) show ?thesis by (intro exI [of _ j]) simp
  next
    case False
    then have jk: "j - n < length ?ks"
      using j(1) len by simp
    have "blockTx pool A = blockTx pool (?ks ! (j - n))"
      using at [OF jk] j(2) False by simp
    then have "A = ?ks ! (j - n)"
      using un by (simp add: uniqueTransactions_def)
    then have "A \<in> set ?ks"
      using jk by (metis nth_mem)
    from filter_keeps_order [OF o ik A [unfolded Tk] this] obtain j' where
      j': "j' < i - n" "?ks ! j' = A"
      by blast
    then have "n + j' < i" "B ! (n + j') = blockTx pool A"
      using at [of j'] ik by simp_all
    then show ?thesis by (intro exI [of _ "n + j'"]) simp
  qed
qed


lemma consistentAncestors_examplePool: "consistentAncestors examplePool"
  by (auto simp: consistentAncestors_def examplePool_def exampleEntry_def)

lemma uniqueTransactions_examplePool: "uniqueTransactions examplePool"
  by (auto simp: uniqueTransactions_def blockTx_def examplePool_def exampleEntry_def
      exampleTx_def)

lemma validityNeedsAncestors_example:
  "validityNeedsAncestors
     ((exampleChain [] [] [] (50, 0, 0, 0))\<lparr>TestBlockValidity := exampleValidity\<rparr>) examplePool"
  by (auto simp: validityNeedsAncestors_def exampleValidity_def blockTx_def examplePool_def
      exampleEntry_def exampleChain_def split: if_splits)


end
